theory Spec2Isabelle
  imports Complex_Main "HOL-Library.Multiset"
begin

section \<open>Common Python notions\<close>

text \<open>
  The Python exceptions that the modelled functions can raise on inputs of their
  declared types.
\<close>

datatype py_error = IndexError | UnboundLocalError | KeyError



section \<open>roi\_filter.py: ROIFilter\<close>


text \<open>
  A detection dictionary as \<^verbatim>\<open>detector.py\<close> builds it; \<^verbatim>\<open>roi_filtered\<close> is the key that
  \<^verbatim>\<open>filter_detections\<close> adds (\<open>None\<close>: key absent).
\<close>

record detection =
  bbox :: "real list"
  confidence :: real
  class_id :: int
  class_name :: string
  center :: "real \<times> real"
  roi_filtered :: "bool option"


subsection \<open>\_point\_in\_polygon\<close>




subsection \<open>filter\_detections\<close>





subsection \<open>Reference notions for the zone engine\<close>







definition det_at :: "real \<Rightarrow> real \<Rightarrow> detection" where
  "det_at cx cy = \<lparr>bbox = [cx - 10, cy - 10, cx + 10, cy + 10], confidence = 9 / 10,
     class_id = 2, class_name = ''car'', center = (cx, cy), roi_filtered = None\<rparr>"

section \<open>roi\_filter.py: MovementCoherenceFilter\<close>





text \<open>\<^verbatim>\<open>np.mean\<close> and \<^verbatim>\<open>np.var\<close> (population variance) of a non-empty list.\<close>

definition np_mean :: "real list \<Rightarrow> real" where
  "np_mean xs = sum_list xs / real (length xs)"







section \<open>tracker.py: MultiObjectTracker\<close>

subsection \<open>Data\<close>

text \<open>
  The four compass directions: the keys of \<^verbatim>\<open>crossing_counts\<close> and the values of
  \<^verbatim>\<open>entry_point\<close> and \<^verbatim>\<open>exit_point\<close>.
\<close>

datatype compass = North | South | East | West

text \<open>
  \<^verbatim>\<open>TrackedObject\<close>. Fields whose names a detection also has carry the prefix \<open>t_\<close>.
  The three histories are deques of at most 30 entries, oldest first.
\<close>

record tracked_object =
  track_id :: int
  t_class_name :: string
  t_class_id :: int
  t_confidence :: real
  t_bbox :: "real list"
  t_center :: "real \<times> real"
  positions :: "(real \<times> real) list"
  confidences :: "real list"
  frame_history :: "int list"
  first_seen_frame :: int
  last_seen_frame :: int
  frames_tracked :: int
  frames_lost :: int
  t_max_frames_lost :: int
  velocity :: "real \<times> real"
  direction :: real
  is_active :: bool
  has_crossed_line :: bool
  entry_point :: "compass option"
  exit_point :: "compass option"

text \<open>A counting line: its name, its two end points and its \<^verbatim>\<open>direction\<close> tag.\<close>

record counting_line =
  line_name :: string
  line_start :: "real \<times> real"
  line_end :: "real \<times> real"
  line_direction :: string

text \<open>
  The part of the configuration dictionary that the tracker reads: the
  \<^verbatim>\<open>detection_zone\<close> entry, each missing key replaced by the default the source passes to
  \<^verbatim>\<open>get\<close>.
\<close>

record tracker_config =
  zone_enabled :: bool
  zone_x1 :: int
  zone_y1 :: int
  zone_x2 :: int
  zone_y2 :: int

definition default_config :: tracker_config where
  "default_config = \<lparr>zone_enabled = False, zone_x1 = 0, zone_y1 = 0, zone_x2 = 1920, zone_y2 = 1080\<rparr>"

text \<open>
  The tracker object. \<^verbatim>\<open>tracked_objects\<close> is a dictionary: an association list in
  insertion order, as Python iterates it. \<^verbatim>\<open>crossing_counts\<close> is a dictionary with exactly
  the four compass keys.
\<close>

record tracker =
  max_distance :: real
  min_track_length :: int
  max_frames_lost :: int
  tracked_objects :: "(int \<times> tracked_object) list"
  next_track_id :: int
  frame_count :: int
  total_tracks_created :: int
  total_tracks_completed :: int
  crossing_counts :: "compass \<Rightarrow> int"
  detection_zone :: "(int \<times> int \<times> int \<times> int) option"
  counting_lines :: "counting_line list"

text \<open>\<^verbatim>\<open>__init__\<close> with \<^verbatim>\<open>_setup_tracking_zones\<close>.\<close>

definition tracker_init :: "tracker_config \<Rightarrow> tracker" where
  "tracker_init config =
     (let width = zone_x2 config - zone_x1 config;
          height = zone_y2 config - zone_y1 config;
          center_x = width div 2;
          center_y = height div 2
      in \<lparr>max_distance = 100, min_track_length = 5, max_frames_lost = 10,
          tracked_objects = [], next_track_id = 1, frame_count = 0,
          total_tracks_created = 0, total_tracks_completed = 0,
          crossing_counts = (\<lambda>_. 0),
          detection_zone =
            (if zone_enabled config
             then Some (zone_x1 config, zone_y1 config, zone_x2 config, zone_y2 config)
             else None),
          counting_lines =
            [\<lparr>line_name = ''horizontal'', line_start = (0, real_of_int center_y),
               line_end = (real_of_int width, real_of_int center_y),
               line_direction = ''vertical''\<rparr>,
             \<lparr>line_name = ''vertical'', line_start = (real_of_int center_x, 0),
               line_end = (real_of_int center_x, real_of_int height),
               line_direction = ''horizontal''\<rparr>]\<rparr>)"

subsection \<open>Association\<close>

definition calculate_distance :: "real \<times> real \<Rightarrow> real \<times> real \<Rightarrow> real" where
  "calculate_distance center1 center2 =
     sqrt ((fst center1 - fst center2)\<^sup>2 + (snd center1 - snd center2)\<^sup>2)"

text \<open>
  The cost matrix, one row per active track and one column per detection; \<open>None\<close> is
  \<^verbatim>\<open>float('inf')\<close>. An entry is finite when the classes agree and the distance is below
  \<^verbatim>\<open>max_distance\<close>.
\<close>

definition cost_entry :: "tracker \<Rightarrow> tracked_object \<Rightarrow> detection \<Rightarrow> real option" where
  "cost_entry st track detection =
     (if t_class_id track = class_id detection then
        (let distance = calculate_distance (t_center track) (center detection)
         in if distance < max_distance st then Some distance else None)
      else None)"

definition build_cost_matrix ::
    "tracker \<Rightarrow> (int \<times> tracked_object) list \<Rightarrow> detection list \<Rightarrow> real option list list" where
  "build_cost_matrix st active_tracks detections =
     map (\<lambda>kt. map (cost_entry st (snd kt)) detections) active_tracks"

text \<open>Comparison of two costs, \<open>None\<close> being greater than every number.\<close>

definition cost_less :: "real option \<Rightarrow> real option \<Rightarrow> bool" where
  "cost_less a b =
     (case a of None \<Rightarrow> False
      | Some x \<Rightarrow> (case b of None \<Rightarrow> True | Some y \<Rightarrow> x < y))"

text \<open>
  \<^verbatim>\<open>np.unravel_index(np.argmin(cost_matrix), cost_matrix.shape)\<close>: the cells are scanned
  row by row and the first cell holding the minimum is returned; \<open>None\<close> when the matrix
  has no cell.
\<close>

fun argmin_scan :: "real option list list \<Rightarrow> nat \<times> nat \<Rightarrow> (nat \<times> nat) list \<Rightarrow> nat \<times> nat" where
  "argmin_scan cm best [] = best"
| "argmin_scan cm best (p # ps) =
     argmin_scan cm
       (if cost_less (cm ! fst p ! snd p) (cm ! fst best ! snd best) then p else best) ps"

definition argmin_index :: "real option list list \<Rightarrow> nat \<Rightarrow> (nat \<times> nat) option" where
  "argmin_index cm ncols =
     (case List.product [0..<length cm] [0..<ncols] of
        [] \<Rightarrow> None
      | p # ps \<Rightarrow> Some (argmin_scan cm p ps))"

text \<open>\<^verbatim>\<open>cost_matrix[track_idx, :] = inf\<close> and \<^verbatim>\<open>cost_matrix[:, det_idx] = inf\<close>.\<close>

definition clear_row :: "nat \<Rightarrow> real option list list \<Rightarrow> real option list list" where
  "clear_row i cm = cm[i := map (\<lambda>_. None) (cm ! i)]"

definition clear_col :: "nat \<Rightarrow> real option list list \<Rightarrow> real option list list" where
  "clear_col j cm = map (\<lambda>row. row[j := None]) cm"

text \<open>
  Dictionary assignment \<^verbatim>\<open>d[k] = v\<close>: an existing key keeps its place, a new key goes to
  the end.
\<close>

fun dict_set :: "'k \<Rightarrow> 'v \<Rightarrow> ('k \<times> 'v) list \<Rightarrow> ('k \<times> 'v) list" where
  "dict_set k v [] = [(k, v)]"
| "dict_set k v (p # ps) = (if fst p = k then (k, v) # ps else p # dict_set k v ps)"

text \<open>The variables of the greedy loop.\<close>

record assoc_state =
  cost_matrix :: "real option list list"
  associations :: "(int \<times> detection) list"
  unmatched_detections :: "detection list"
  unmatched_tracks :: "int list"

text \<open>
  The loop \<^verbatim>\<open>for _ in range(min(len(track_ids), len(detections)))\<close>, with its two
  \<^verbatim>\<open>break\<close>s: an empty matrix, and a minimum that is infinite.
\<close>

fun greedy_loop :: "nat \<Rightarrow> int list \<Rightarrow> detection list \<Rightarrow> assoc_state \<Rightarrow> assoc_state" where
  "greedy_loop 0 track_ids detections s = s"
| "greedy_loop (Suc n) track_ids detections s =
     (case argmin_index (cost_matrix s) (length detections) of
        None \<Rightarrow> s
      | Some (track_idx, det_idx) \<Rightarrow>
          (case cost_matrix s ! track_idx ! det_idx of
             None \<Rightarrow> s
           | Some c \<Rightarrow>
               (let track_id = track_ids ! track_idx;
                    detection = detections ! det_idx
                in greedy_loop n track_ids detections
                     \<lparr>cost_matrix = clear_col det_idx (clear_row track_idx (cost_matrix s)),
                      associations = dict_set track_id detection (associations s),
                      unmatched_detections = remove1 detection (unmatched_detections s),
                      unmatched_tracks = remove1 track_id (unmatched_tracks s)\<rparr>)))"

definition associate_detections ::
    "tracker \<Rightarrow> detection list \<Rightarrow> (int \<times> detection) list \<times> detection list \<times> int list" where
  "associate_detections st detections =
     (if tracked_objects st = [] then ([], detections, [])
      else
        (let active_tracks = filter (\<lambda>kt. is_active (snd kt)) (tracked_objects st)
         in if active_tracks = [] then ([], detections, [])
            else
              (let track_ids = map fst active_tracks;
                   s = greedy_loop (min (length track_ids) (length detections))
                         track_ids detections
                         \<lparr>cost_matrix = build_cost_matrix st active_tracks detections,
                          associations = [],
                          unmatched_detections = detections,
                          unmatched_tracks = track_ids\<rparr>
               in (associations s, unmatched_detections s, unmatched_tracks s))))"

subsection \<open>Line crossings\<close>

text \<open>The counter-clockwise test and the segment intersection test of \<^verbatim>\<open>_line_intersection\<close>.\<close>

definition ccw :: "real \<times> real \<Rightarrow> real \<times> real \<Rightarrow> real \<times> real \<Rightarrow> bool" where
  "ccw A B C = ((snd C - snd A) * (fst B - fst A) > (snd B - snd A) * (fst C - fst A))"

definition line_intersection ::
    "real \<times> real \<Rightarrow> real \<times> real \<Rightarrow> real \<times> real \<Rightarrow> real \<times> real \<Rightarrow> bool" where
  "line_intersection p1 p2 p3 p4 =
     (ccw p1 p3 p4 \<noteq> ccw p2 p3 p4 \<and> ccw p1 p2 p3 \<noteq> ccw p1 p2 p4)"

definition get_crossing_direction ::
    "real \<times> real \<Rightarrow> real \<times> real \<Rightarrow> counting_line \<Rightarrow> compass" where
  "get_crossing_direction old_pos new_pos line_info =
     (if line_direction line_info = ''vertical'' then
        (if snd new_pos < snd old_pos then North else South)
      else
        (if fst new_pos > fst old_pos then East else West))"

text \<open>
  The loop of \<^verbatim>\<open>_check_line_crossings\<close> over the counting lines; its state is the track and
  the crossing counters. The direction returned is never empty, so the test
  \<^verbatim>\<open>direction and not track.has_crossed_line\<close> is the test of the flag.
\<close>

fun check_lines :: "counting_line list \<Rightarrow> real \<times> real \<Rightarrow> real \<times> real
    \<Rightarrow> tracked_object \<times> (compass \<Rightarrow> int) \<Rightarrow> tracked_object \<times> (compass \<Rightarrow> int)" where
  "check_lines [] old_center new_center s = s"
| "check_lines (line_info # rest) old_center new_center s =
     (if line_intersection old_center new_center (line_start line_info) (line_end line_info)
      then
        (let direction = get_crossing_direction old_center new_center line_info
         in if \<not> has_crossed_line (fst s)
            then check_lines rest old_center new_center
                   ((fst s)\<lparr>has_crossed_line := True\<rparr>,
                    (snd s)(direction := snd s direction + 1))
            else check_lines rest old_center new_center s)
      else check_lines rest old_center new_center s)"

definition check_line_crossings ::
    "tracker \<Rightarrow> tracked_object \<Rightarrow> real \<times> real \<Rightarrow> tracked_object \<times> (compass \<Rightarrow> int)" where
  "check_line_crossings st track old_center =
     check_lines (counting_lines st) old_center (t_center track) (track, crossing_counts st)"

subsection \<open>Updating, creating and losing tracks\<close>

text \<open>\<^verbatim>\<open>append\<close> on a \<^verbatim>\<open>deque(maxlen=30)\<close>: a full deque drops its oldest entry.\<close>

definition deque_append :: "'a list \<Rightarrow> 'a \<Rightarrow> 'a list" where
  "deque_append q x = (if length q \<ge> 30 then tl q @ [x] else q @ [x])"

text \<open>\<^verbatim>\<open>math.degrees(math.atan2(y, x))\<close>.\<close>

definition py_atan2 :: "real \<Rightarrow> real \<Rightarrow> real" where
  "py_atan2 y x =
     (if x > 0 then arctan (y / x)
      else if x < 0 then (if y \<ge> 0 then arctan (y / x) + pi else arctan (y / x) - pi)
      else if y > 0 then pi / 2
      else if y < 0 then - pi / 2
      else 0)"

definition py_degrees :: "real \<Rightarrow> real" where
  "py_degrees r = r * 180 / pi"

text \<open>
  The part of \<^verbatim>\<open>_update_track\<close> before the crossing check: the new box, confidence and
  center, the histories, velocity and direction, and the counters.
\<close>

definition moved_track :: "tracked_object \<Rightarrow> detection \<Rightarrow> int \<Rightarrow> tracked_object" where
  "moved_track track detection frame_number =
     (let old_center = t_center track;
          track1 = track\<lparr>t_bbox := bbox detection, t_confidence := confidence detection,
                         t_center := center detection\<rparr>;
          track2 = track1\<lparr>positions := deque_append (positions track1) (t_center track1),
                          confidences := deque_append (confidences track1) (t_confidence track1),
                          frame_history := deque_append (frame_history track1) frame_number\<rparr>;
          track3 =
            (if length (positions track2) \<ge> 2 then
               (let v = (fst (t_center track2) - fst old_center,
                         snd (t_center track2) - snd old_center);
                    track2v = track2\<lparr>velocity := v\<rparr>
                in if \<bar>fst v\<bar> > 1 / 10 \<or> \<bar>snd v\<bar> > 1 / 10
                   then track2v\<lparr>direction := py_degrees (py_atan2 (snd v) (fst v))\<rparr>
                   else track2v)
             else track2)
      in track3\<lparr>last_seen_frame := frame_number,
                 frames_tracked := frames_tracked track3 + 1,
                 frames_lost := 0\<rparr>)"

text \<open>
  \<^verbatim>\<open>_update_track\<close>: \<^verbatim>\<open>self.tracked_objects[track_id]\<close> raises KeyError for a missing
  identifier; the track object is changed in place, so the table holds the new value.
\<close>

definition update_track :: "tracker \<Rightarrow> int \<Rightarrow> detection \<Rightarrow> int \<Rightarrow> py_error + tracker" where
  "update_track st tid detection frame_number =
     (case map_of (tracked_objects st) tid of
        None \<Rightarrow> Inl KeyError
      | Some track \<Rightarrow>
          (let old_center = t_center track;
               r = check_line_crossings st (moved_track track detection frame_number) old_center
           in Inr (st\<lparr>tracked_objects := dict_set tid (fst r) (tracked_objects st),
                      crossing_counts := snd r\<rparr>)))"

text \<open>
  \<^verbatim>\<open>min(distances, key=distances.get)\<close> over the dictionary with keys in the order north,
  south, west, east: the first key with the least value.
\<close>

fun first_min :: "compass \<times> real \<Rightarrow> (compass \<times> real) list \<Rightarrow> compass" where
  "first_min best [] = fst best"
| "first_min best (c # cs) = first_min (if snd c < snd best then c else best) cs"

definition get_entry_point :: "tracker \<Rightarrow> real \<times> real \<Rightarrow> compass" where
  "get_entry_point st c =
     (let wh = (case detection_zone st of
                  None \<Rightarrow> (1920, 1080)
                | Some (x1, y1, x2, y2) \<Rightarrow> (real_of_int (x2 - x1), real_of_int (y2 - y1)));
          x = fst c; y = snd c
      in first_min (North, y) [(South, snd wh - y), (West, x), (East, fst wh - x)])"

definition get_exit_point :: "tracker \<Rightarrow> real \<times> real \<Rightarrow> compass" where
  "get_exit_point st c = get_entry_point st c"

definition create_new_track :: "tracker \<Rightarrow> detection \<Rightarrow> int \<Rightarrow> tracker" where
  "create_new_track st detection frame_number =
     (let tid = next_track_id st;
          new_track =
            \<lparr>track_id = tid, t_class_name = class_name detection,
             t_class_id = class_id detection, t_confidence = confidence detection,
             t_bbox = bbox detection, t_center = center detection,
             positions = deque_append [] (center detection),
             confidences = deque_append [] (confidence detection),
             frame_history = deque_append [] frame_number,
             first_seen_frame = frame_number, last_seen_frame = frame_number,
             frames_tracked = 1, frames_lost = 0, t_max_frames_lost = 10,
             velocity = (0, 0), direction = 0, is_active = True, has_crossed_line = False,
             entry_point = Some (get_entry_point st (center detection)),
             exit_point = None\<rparr>
      in st\<lparr>next_track_id := tid + 1,
            tracked_objects := dict_set tid new_track (tracked_objects st),
            total_tracks_created := total_tracks_created st + 1\<rparr>)"

definition handle_lost_track :: "tracker \<Rightarrow> int \<Rightarrow> int \<Rightarrow> tracker" where
  "handle_lost_track st tid frame_number =
     (case map_of (tracked_objects st) tid of
        None \<Rightarrow> st
      | Some track \<Rightarrow>
          (let track1 = track\<lparr>frames_lost := frames_lost track + 1\<rparr>
           in if frames_lost track1 \<ge> max_frames_lost st then
                (let track2 = track1\<lparr>is_active := False,
                                     exit_point := Some (get_exit_point st (t_center track1))\<rparr>
                 in st\<lparr>tracked_objects := dict_set tid track2 (tracked_objects st),
                       total_tracks_completed :=
                         (if frames_tracked track2 \<ge> min_track_length st
                          then total_tracks_completed st + 1
                          else total_tracks_completed st)\<rparr>)
              else st\<lparr>tracked_objects := dict_set tid track1 (tracked_objects st)\<rparr>))"

text \<open>\<^verbatim>\<open>del d[k]\<close> for each identifier collected by \<^verbatim>\<open>_cleanup_inactive_tracks\<close>.\<close>

definition dict_del :: "'k \<Rightarrow> ('k \<times> 'v) list \<Rightarrow> ('k \<times> 'v) list" where
  "dict_del k d = filter (\<lambda>p. fst p \<noteq> k) d"

definition cleanup_inactive_tracks :: "tracker \<Rightarrow> tracker" where
  "cleanup_inactive_tracks st =
     (let tracks_to_remove =
            map fst (filter (\<lambda>kt. \<not> is_active (snd kt)
                                  \<and> frame_count st - last_seen_frame (snd kt) > 100)
                       (tracked_objects st))
      in st\<lparr>tracked_objects := foldl (\<lambda>d k. dict_del k d) (tracked_objects st) tracks_to_remove\<rparr>)"

subsection \<open>update\<close>

text \<open>The loop over the associations; an exception ends it.\<close>

fun update_tracks :: "tracker \<Rightarrow> (int \<times> detection) list \<Rightarrow> int \<Rightarrow> py_error + tracker" where
  "update_tracks st [] frame_number = Inr st"
| "update_tracks st (a # rest) frame_number =
     (case update_track st (fst a) (snd a) frame_number of
        Inl e \<Rightarrow> Inl e
      | Inr st' \<Rightarrow> update_tracks st' rest frame_number)"

text \<open>
  \<^verbatim>\<open>update\<close> returns the list of active tracks; the model returns it with the new state
  of the tracker. The source has no check on \<^verbatim>\<open>frame_number\<close> and no \<^verbatim>\<open>raise\<close>.
\<close>

definition update :: "tracker \<Rightarrow> detection list \<Rightarrow> int
    \<Rightarrow> py_error + (tracked_object list \<times> tracker)" where
  "update st detections frame_number =
     (let st0 = st\<lparr>frame_count := frame_number\<rparr>;
          r = associate_detections st0 detections
      in case update_tracks st0 (fst r) frame_number of
           Inl e \<Rightarrow> Inl e
         | Inr st1 \<Rightarrow>
             (let st2 = foldl (\<lambda>s d. create_new_track s d frame_number) st1 (fst (snd r));
                  st3 = foldl (\<lambda>s k. handle_lost_track s k frame_number) st2 (snd (snd r));
                  st4 = cleanup_inactive_tracks st3
              in Inr (map snd (filter (\<lambda>kt. is_active (snd kt)) (tracked_objects st4)), st4)))"

subsection \<open>get\_tracking\_statistics\<close>

record class_stat =
  cs_active :: int
  cs_completed :: int
  cs_total :: int

record tracking_statistics =
  stat_active_tracks :: int
  stat_completed_tracks :: int
  stat_total_tracks_created :: int
  stat_crossing_counts :: "compass \<Rightarrow> int"
  stat_class_statistics :: "(string \<times> class_stat) list"
  stat_average_track_length :: real

definition completed_tracks :: "tracker \<Rightarrow> tracked_object list" where
  "completed_tracks st =
     filter (\<lambda>t. \<not> is_active t \<and> frames_tracked t \<ge> min_track_length st)
       (map snd (tracked_objects st))"

fun class_stats_loop ::
    "tracked_object list \<Rightarrow> (string \<times> class_stat) list \<Rightarrow> (string \<times> class_stat) list" where
  "class_stats_loop [] cs = cs"
| "class_stats_loop (track # rest) cs =
     (let cs1 = (if map_of cs (t_class_name track) = None
                 then dict_set (t_class_name track)
                        \<lparr>cs_active = 0, cs_completed = 0, cs_total = 0\<rparr> cs
                 else cs);
          e = (case map_of cs1 (t_class_name track) of
                 None \<Rightarrow> \<lparr>cs_active = 0, cs_completed = 0, cs_total = 0\<rparr>
               | Some e0 \<Rightarrow> e0);
          e1 = (if is_active track then e\<lparr>cs_active := cs_active e + 1\<rparr>
                else e\<lparr>cs_completed := cs_completed e + 1\<rparr>);
          e2 = e1\<lparr>cs_total := cs_total e1 + 1\<rparr>
      in class_stats_loop rest (dict_set (t_class_name track) e2 cs1))"

definition get_tracking_statistics :: "tracker \<Rightarrow> tracking_statistics" where
  "get_tracking_statistics st =
     (let active_tracks = filter is_active (map snd (tracked_objects st));
          completed = completed_tracks st
      in \<lparr>stat_active_tracks = int (length active_tracks),
          stat_completed_tracks = int (length completed),
          stat_total_tracks_created = total_tracks_created st,
          stat_crossing_counts = crossing_counts st,
          stat_class_statistics = class_stats_loop (active_tracks @ completed) [],
          stat_average_track_length =
            (if completed \<noteq> []
             then np_mean (map (\<lambda>t. real_of_int (frames_tracked t)) completed)
             else 0)\<rparr>)"

subsection \<open>Runs of update calls\<close>

text \<open>
  A sequence of \<^verbatim>\<open>update\<close> calls, each with its detection list and frame number; the
  returned track lists are dropped, an exception ends the run.
\<close>

fun run_updates :: "tracker \<Rightarrow> (detection list \<times> int) list \<Rightarrow> py_error + tracker" where
  "run_updates st [] = Inr st"
| "run_updates st (f # fs) =
     (case update st (fst f) (snd f) of
        Inl e \<Rightarrow> Inl e
      | Inr r \<Rightarrow> run_updates (snd r) fs)"

text \<open>The same detection in each of the frames \<open>1, \<dots>, 3\<close> and in each of \<open>1, \<dots>, 5\<close>.\<close>

definition present3 :: "detection \<Rightarrow> (detection list \<times> int) list" where
  "present3 d = [([d], 1), ([d], 2), ([d], 3)]"

definition present5 :: "detection \<Rightarrow> (detection list \<times> int) list" where
  "present5 d = [([d], 1), ([d], 2), ([d], 3), ([d], 4), ([d], 5)]"

text \<open>Frames without detections, numbered from \<open>first\<close>.\<close>

definition absent :: "int \<Rightarrow> nat \<Rightarrow> (detection list \<times> int) list" where
  "absent first n = map (\<lambda>i. ([], first + int i)) [0..<n]"

text \<open>The sum of the four crossing counters.\<close>

definition count_sum :: "(compass \<Rightarrow> int) \<Rightarrow> int" where
  "count_sum c = c North + c South + c East + c West"

definition total_crossings :: "tracker \<Rightarrow> int" where
  "total_crossings st = count_sum (crossing_counts st)"

text \<open>
  The state of a new tracker (default configuration) after one \<^verbatim>\<open>update\<close> for frame 1
  with the single detection \<open>det_at 100 100\<close>.
\<close>

definition one_car_track :: tracked_object where
  "one_car_track =
     \<lparr>track_id = 1, t_class_name = ''car'', t_class_id = 2, t_confidence = 9 / 10,
      t_bbox = [90, 90, 110, 110], t_center = (100, 100), positions = [(100, 100)],
      confidences = [9 / 10], frame_history = [1], first_seen_frame = 1,
      last_seen_frame = 1, frames_tracked = 1, frames_lost = 0, t_max_frames_lost = 10,
      velocity = (0, 0), direction = 0, is_active = True, has_crossed_line = False,
      entry_point = Some North, exit_point = None\<rparr>"

definition one_car_state :: tracker where
  "one_car_state =
     (tracker_init default_config)
       \<lparr>tracked_objects := [(1, one_car_track)], next_track_id := 2, frame_count := 1,
        total_tracks_created := 1\<rparr>"

text \<open>
  A tracker whose frame is 200 x 200, so that its counting lines are the horizontal line
  \<open>y = 100\<close> and the vertical line \<open>x = 100\<close>, after one \<^verbatim>\<open>update\<close> for frame 1 with the
  single detection \<open>det_at 90 50\<close>.
\<close>

definition line_config :: tracker_config where
  "line_config = default_config\<lparr>zone_x2 := 200, zone_y2 := 200\<rparr>"

definition west_car_track :: tracked_object where
  "west_car_track =
     \<lparr>track_id = 1, t_class_name = ''car'', t_class_id = 2, t_confidence = 9 / 10,
      t_bbox = [80, 40, 100, 60], t_center = (90, 50), positions = [(90, 50)],
      confidences = [9 / 10], frame_history = [1], first_seen_frame = 1,
      last_seen_frame = 1, frames_tracked = 1, frames_lost = 0, t_max_frames_lost = 10,
      velocity = (0, 0), direction = 0, is_active = True, has_crossed_line = False,
      entry_point = Some North, exit_point = None\<rparr>"

definition west_car_state :: tracker where
  "west_car_state =
     (tracker_init line_config)
       \<lparr>tracked_objects := [(1, west_car_track)], next_track_id := 2, frame_count := 1,
        total_tracks_created := 1\<rparr>"

subsection \<open>Notions used to state the tracker's properties\<close>

text \<open>
  The invariant of the greedy loop, over the list \<open>ps\<close> of the cells chosen so far (row
  and column): cleared rows and columns are exactly the chosen ones, every finite cell
  still holds its initial cost, and the three result variables are determined by \<open>ps\<close>.
\<close>

definition greedy_inv :: "int list \<Rightarrow> detection list \<Rightarrow> real option list list
    \<Rightarrow> (nat \<times> nat) list \<Rightarrow> assoc_state \<Rightarrow> bool" where
  "greedy_inv tids dets cm0 ps s \<longleftrightarrow>
     length (cost_matrix s) = length tids
     \<and> (\<forall>i<length tids. length (cost_matrix s ! i) = length dets)
     \<and> (\<forall>i<length tids. \<forall>j<length dets.
           cost_matrix s ! i ! j =
             (if i \<in> fst ` set ps \<or> j \<in> snd ` set ps then None else cm0 ! i ! j))
     \<and> (\<forall>p \<in> set ps. fst p < length tids \<and> snd p < length dets \<and> cm0 ! fst p ! snd p \<noteq> None)
     \<and> distinct (map fst ps) \<and> distinct (map snd ps)
     \<and> associations s = map (\<lambda>p. (tids ! fst p, dets ! snd p)) ps
     \<and> unmatched_tracks s = filter (\<lambda>k. k \<notin> (\<lambda>p. tids ! fst p) ` set ps) tids
     \<and> mset (unmatched_detections s) + mset (map (\<lambda>p. dets ! snd p) ps) = mset dets"

text \<open>The number of tracks of a table whose crossing flag is set.\<close>

definition crossed_in :: "(int \<times> tracked_object) list \<Rightarrow> int" where
  "crossed_in tbl = int (length (filter (\<lambda>kt. has_crossed_line (snd kt)) tbl))"

text \<open>The crossing flag of a track identifier in a state; false for an identifier not in the table.\<close>

definition crossed :: "tracker \<Rightarrow> int \<Rightarrow> bool" where
  "crossed st k =
     (case map_of (tracked_objects st) k of None \<Rightarrow> False | Some t \<Rightarrow> has_crossed_line t)"

text \<open>
  A well-formed table: a dictionary has each key once, and every identifier in use is
  below \<^verbatim>\<open>next_track_id\<close>.
\<close>

definition wf_tracker :: "tracker \<Rightarrow> bool" where
  "wf_tracker st \<longleftrightarrow>
     distinct (map fst (tracked_objects st))
     \<and> list_all (\<lambda>kt. fst kt < next_track_id st) (tracked_objects st)"

text \<open>
  What \<^verbatim>\<open>_update_track\<close> guarantees about a matched track: \<open>t1\<close> is the track \<open>t\<close> after one
  or more updates in the call for frame \<open>fn\<close>.
\<close>

definition touched :: "int \<Rightarrow> tracked_object \<Rightarrow> tracked_object \<Rightarrow> bool" where
  "touched fn t t1 \<longleftrightarrow>
     frames_lost t1 = 0 \<and> last_seen_frame t1 = fn \<and> is_active t1 = is_active t
     \<and> (has_crossed_line t1 \<or> \<not> has_crossed_line t)"

text \<open>The track that \<^verbatim>\<open>_handle_lost_track\<close> leaves in the table for an unmatched track.\<close>

definition lost_track :: "tracker \<Rightarrow> tracked_object \<Rightarrow> tracked_object" where
  "lost_track st track =
     (let track1 = track\<lparr>frames_lost := frames_lost track + 1\<rparr>
      in if frames_lost track1 \<ge> max_frames_lost st
         then track1\<lparr>is_active := False,
                      exit_point := Some (get_exit_point st (t_center track1))\<rparr>
         else track1)"

text \<open>Two states with the same thresholds, zone and counting lines.\<close>

definition same_config :: "tracker \<Rightarrow> tracker \<Rightarrow> bool" where
  "same_config st st' \<longleftrightarrow>
     max_distance st' = max_distance st \<and> min_track_length st' = min_track_length st
     \<and> max_frames_lost st' = max_frames_lost st \<and> detection_zone st' = detection_zone st
     \<and> counting_lines st' = counting_lines st"

text \<open>The test of \<^verbatim>\<open>_cleanup_inactive_tracks\<close> on one table entry.\<close>

definition purgeable :: "int \<Rightarrow> int \<times> tracked_object \<Rightarrow> bool" where
  "purgeable fc kt \<longleftrightarrow> \<not> is_active (snd kt) \<and> fc - last_seen_frame (snd kt) > 100"

section \<open>Properties of the zone engine\<close>

subsection \<open>Ray casting\<close>



















subsection \<open>Claim C5\<close>



subsection \<open>Claim C7\<close>




subsection \<open>Claim C1\<close>



section \<open>Properties of the movement-coherence filter\<close>








subsection \<open>Claim C9\<close>



section \<open>Properties of the tracker\<close>

subsection \<open>The update call always returns\<close>

lemma argmin_scan_mem: "argmin_scan cm best ps \<in> set (best # ps)"
  by (induction ps arbitrary: best) auto

lemma argmin_index_bounds:
  assumes "argmin_index cm n = Some (i, j)"
  shows "i < length cm \<and> j < n"
proof -
  from assms obtain p ps where pr: "List.product [0..<length cm] [0..<n] = p # ps"
    and r: "(i, j) = argmin_scan cm p ps"
    by (auto simp: argmin_index_def split: list.splits)
  have "(i, j) \<in> set (p # ps)" unfolding r by (rule argmin_scan_mem)
  then have "(i, j) \<in> set (List.product [0..<length cm] [0..<n])" using pr by simp
  then show ?thesis by auto
qed

lemma length_clear: "length (clear_col j (clear_row i cm)) = length cm"
  by (simp add: clear_col_def clear_row_def)

lemma dict_set_keys_subset: "fst ` set (dict_set k v d) = insert k (fst ` set d)"
  by (induction d) auto

lemma dict_set_keys_present:
  "k \<in> fst ` set d \<Longrightarrow> map fst (dict_set k v d) = map fst d"
  by (induction d) auto

lemma dict_set_new: "k \<notin> fst ` set d \<Longrightarrow> dict_set k v d = d @ [(k, v)]"
  by (induction d) auto

lemma map_of_dict_set:
  "map_of (dict_set k v d) = (map_of d)(k \<mapsto> v)"
  by (induction d) (auto simp: fun_eq_iff)

lemma greedy_loop_keys:
  "length (cost_matrix s) = length tids \<Longrightarrow> fst ` set (associations s) \<subseteq> set tids \<Longrightarrow>
   fst ` set (associations (greedy_loop n tids dets s)) \<subseteq> set tids"
proof (induction n arbitrary: s)
  case 0
  then show ?case by simp
next
  case (Suc n)
  show ?case
  proof (cases "argmin_index (cost_matrix s) (length dets)")
    case None
    then show ?thesis using Suc.prems by simp
  next
    case (Some p)
    obtain i j where p: "p = (i, j)" by (cases p)
    from Some p have b: "i < length tids" "j < length dets"
      using argmin_index_bounds[of "cost_matrix s" "length dets" i j] Suc.prems by auto
    show ?thesis
    proof (cases "cost_matrix s ! i ! j")
      case None
      then show ?thesis using Some p Suc.prems by simp
    next
      case (Some c)
      let ?s' = "\<lparr>cost_matrix = clear_col j (clear_row i (cost_matrix s)),
                 associations = dict_set (tids ! i) (dets ! j) (associations s),
                 unmatched_detections = remove1 (dets ! j) (unmatched_detections s),
                 unmatched_tracks = remove1 (tids ! i) (unmatched_tracks s)\<rparr>"
      have "fst ` set (associations (greedy_loop n tids dets ?s')) \<subseteq> set tids"
        using Suc.prems b by (intro Suc.IH) (auto simp: length_clear dict_set_keys_subset)
      then show ?thesis
        using \<open>argmin_index (cost_matrix s) (length dets) = Some p\<close> p Some
        by (simp add: Let_def)
    qed
  qed
qed

lemma associate_keys:
  "fst ` set (fst (associate_detections st dets)) \<subseteq> fst ` set (tracked_objects st)"
proof -
  let ?act = "filter (\<lambda>kt. is_active (snd kt)) (tracked_objects st)"
  have "fst ` set (associations (greedy_loop n (map fst ?act) dets
          \<lparr>cost_matrix = build_cost_matrix st ?act dets, associations = [],
           unmatched_detections = dets, unmatched_tracks = map fst ?act\<rparr>))
        \<subseteq> set (map fst ?act)" for n
    by (rule greedy_loop_keys) (simp_all add: build_cost_matrix_def)
  then show ?thesis
    by (auto simp: associate_detections_def Let_def)
qed






subsection \<open>Evaluating runs\<close>

lemmas tracker_eval = update_def associate_detections_def build_cost_matrix_def cost_entry_def
  calculate_distance_def argmin_index_def cost_less_def clear_row_def clear_col_def
  update_track_def moved_track_def check_line_crossings_def line_intersection_def ccw_def
  get_crossing_direction_def deque_append_def create_new_track_def handle_lost_track_def
  cleanup_inactive_tracks_def dict_del_def Let_def

lemma run_updates_append:
  "run_updates st (xs @ ys) =
     (case run_updates st xs of Inl e \<Rightarrow> Inl e | Inr s \<Rightarrow> run_updates s ys)"
  by (induction xs arbitrary: st) (auto split: sum.splits)

lemma absent_Suc: "absent f (Suc n) = ([], f) # absent (f + 1) n"
  unfolding absent_def map_upt_Suc by (simp add: add.assoc)

lemma update_absent_active:
  assumes "tracked_objects st = [(k, t)]" "is_active t" "frames_lost t + 1 < max_frames_lost st"
  shows "update st [] fn =
     Inr ([t\<lparr>frames_lost := frames_lost t + 1\<rparr>],
          st\<lparr>frame_count := fn,
             tracked_objects := [(k, t\<lparr>frames_lost := frames_lost t + 1\<rparr>)]\<rparr>)"
  using assms by (simp add: tracker_eval)

lemma update_absent_flip:
  assumes "tracked_objects st = [(k, t)]" "is_active t" "frames_lost t + 1 \<ge> max_frames_lost st"
    "fn - last_seen_frame t \<le> 100"
  shows "update st [] fn =
     Inr ([],
          st\<lparr>frame_count := fn,
             tracked_objects := [(k, t\<lparr>frames_lost := frames_lost t + 1, is_active := False,
                 exit_point := Some (get_exit_point (st\<lparr>frame_count := fn\<rparr>) (t_center t))\<rparr>)],
             total_tracks_completed :=
               (if frames_tracked t \<ge> min_track_length st then total_tracks_completed st + 1
                else total_tracks_completed st)\<rparr>)"
  using assms by (simp add: tracker_eval)

lemma update_absent_inactive:
  assumes "tracked_objects st = [(k, t)]" "\<not> is_active t"
  shows "update st [] fn =
     Inr ([],
          st\<lparr>frame_count := fn,
             tracked_objects := (if fn - last_seen_frame t > 100 then [] else [(k, t)])\<rparr>)"
  using assms by (simp add: tracker_eval)

lemma run_absent_active:
  assumes "tracked_objects st = [(k, t)]" "is_active t"
    "frames_lost t + int n < max_frames_lost st" "0 < n"
  shows "run_updates st (absent f n) =
     Inr (st\<lparr>frame_count := f + int n - 1,
             tracked_objects := [(k, t\<lparr>frames_lost := frames_lost t + int n\<rparr>)]\<rparr>)"
  using assms
proof (induction n arbitrary: st t f)
  case 0
  then show ?case by simp
next
  case (Suc n)
  let ?t1 = "t\<lparr>frames_lost := frames_lost t + 1\<rparr>"
  let ?s1 = "st\<lparr>frame_count := f, tracked_objects := [(k, ?t1)]\<rparr>"
  have step: "update st [] f = Inr ([?t1], ?s1)"
    using Suc.prems by (intro update_absent_active) auto
  show ?case
  proof (cases "n = 0")
    case True
    then show ?thesis using step by (simp add: absent_def)
  next
    case False
    have "run_updates ?s1 (absent (f + 1) n) =
      Inr (?s1\<lparr>frame_count := f + 1 + int n - 1,
             tracked_objects := [(k, ?t1\<lparr>frames_lost := frames_lost ?t1 + int n\<rparr>)]\<rparr>)"
      using Suc.prems False by (intro Suc.IH) auto
    then show ?thesis using step by (simp add: absent_Suc add.assoc)
  qed
qed

lemma present3_run:
  "\<exists>s t. run_updates (tracker_init default_config) (present3 d) = Inr s
     \<and> tracked_objects s = [(1, t)] \<and> is_active t \<and> frames_lost t = 0
     \<and> frames_tracked t = 3 \<and> last_seen_frame t = 3
     \<and> max_frames_lost s = 10 \<and> min_track_length s = 5 \<and> total_tracks_completed s = 0"
  by (simp add: tracker_eval tracker_init_def default_config_def present3_def)

lemma present5_run:
  "\<exists>s t. run_updates (tracker_init default_config) (present5 d) = Inr s
     \<and> tracked_objects s = [(1, t)] \<and> is_active t \<and> frames_lost t = 0
     \<and> frames_tracked t = 5 \<and> last_seen_frame t = 5
     \<and> max_frames_lost s = 10 \<and> min_track_length s = 5 \<and> total_tracks_completed s = 0"
  by (simp add: tracker_eval tracker_init_def default_config_def present5_def)

lemma absent_snoc: "absent f (Suc n) = absent f n @ [([], f + int n)]"
  by (simp add: absent_def)

lemma run_updates_snoc:
  "run_updates st xs = Inr s \<Longrightarrow> update s dets fn = Inr (out, s') \<Longrightarrow>
   run_updates st (xs @ [(dets, fn)]) = Inr s'"
  by (simp add: run_updates_append)

lemma run_updates_then:
  "run_updates st xs = Inr s \<Longrightarrow> run_updates s ys = Inr s' \<Longrightarrow>
   run_updates st (xs @ ys) = Inr s'"
  by (simp add: run_updates_append)

text \<open>
  A tracker holding one active track that has not been lost yet, with the constructor's
  thresholds: the states reached in the following absent frames.
\<close>

lemma lone_track_lost:
  assumes tb: "tracked_objects st = [(k, t)]" and act: "is_active t" and fl: "frames_lost t = 0"
    and m: "max_frames_lost st = 10" and ls: "f + 10 - last_seen_frame t \<le> 100"
  shows "run_updates st (absent f 9) =
           Inr (st\<lparr>frame_count := f + 8, tracked_objects := [(k, t\<lparr>frames_lost := 9\<rparr>)]\<rparr>)"
    and "run_updates st (absent f 10) =
           Inr (st\<lparr>frame_count := f + 9,
                  tracked_objects := [(k, t\<lparr>frames_lost := 10, is_active := False,
                     exit_point := Some (get_exit_point (st\<lparr>frame_count := f + 9\<rparr>) (t_center t))\<rparr>)],
                  total_tracks_completed :=
                    (if frames_tracked t \<ge> min_track_length st then total_tracks_completed st + 1
                     else total_tracks_completed st)\<rparr>)"
    and "run_updates st (absent f 11) =
           Inr (st\<lparr>frame_count := f + 10,
                  tracked_objects := [(k, t\<lparr>frames_lost := 10, is_active := False,
                     exit_point := Some (get_exit_point (st\<lparr>frame_count := f + 9\<rparr>) (t_center t))\<rparr>)],
                  total_tracks_completed :=
                    (if frames_tracked t \<ge> min_track_length st then total_tracks_completed st + 1
                     else total_tracks_completed st)\<rparr>)"
proof -
  let ?s9 = "st\<lparr>frame_count := f + 8, tracked_objects := [(k, t\<lparr>frames_lost := 9\<rparr>)]\<rparr>"
  let ?t10 = "t\<lparr>frames_lost := 10, is_active := False,
                exit_point := Some (get_exit_point (st\<lparr>frame_count := f + 9\<rparr>) (t_center t))\<rparr>"
  let ?s10 = "st\<lparr>frame_count := f + 9, tracked_objects := [(k, ?t10)],
                  total_tracks_completed :=
                    (if frames_tracked t \<ge> min_track_length st then total_tracks_completed st + 1
                     else total_tracks_completed st)\<rparr>"
  have "run_updates st (absent f 9) =
     Inr (st\<lparr>frame_count := f + int 9 - 1,
             tracked_objects := [(k, t\<lparr>frames_lost := frames_lost t + int 9\<rparr>)]\<rparr>)"
    using tb act fl m by (intro run_absent_active) auto
  then show r9: "run_updates st (absent f 9) = Inr ?s9" using fl by simp
  have "update ?s9 [] (f + 9) =
     Inr ([],
          ?s9\<lparr>frame_count := f + 9,
             tracked_objects := [(k, (t\<lparr>frames_lost := 9\<rparr>)\<lparr>frames_lost := frames_lost (t\<lparr>frames_lost := 9\<rparr>) + 1, is_active := False,
                 exit_point := Some (get_exit_point (?s9\<lparr>frame_count := f + 9\<rparr>) (t_center (t\<lparr>frames_lost := 9\<rparr>)))\<rparr>)],
             total_tracks_completed :=
               (if frames_tracked (t\<lparr>frames_lost := 9\<rparr>) \<ge> min_track_length ?s9 then total_tracks_completed ?s9 + 1
                else total_tracks_completed ?s9)\<rparr>)"
    using act m ls by (intro update_absent_flip) auto
  then have u10: "update ?s9 [] (f + 9) = Inr ([], ?s10)"
    by (simp add: get_exit_point_def get_entry_point_def)
  have "absent f 10 = absent f 9 @ [([], f + 9)]"
    using absent_snoc[of f 9] by simp
  then show r10: "run_updates st (absent f 10) = Inr ?s10"
    using run_updates_snoc[OF r9 u10] by simp
  have "update ?s10 [] (f + 10) =
     Inr ([], ?s10\<lparr>frame_count := f + 10,
             tracked_objects := (if (f + 10) - last_seen_frame ?t10 > 100 then [] else [(k, ?t10)])\<rparr>)"
    by (intro update_absent_inactive) auto
  then have u11: "update ?s10 [] (f + 10) =
     Inr ([], st\<lparr>frame_count := f + 10, tracked_objects := [(k, ?t10)],
                  total_tracks_completed :=
                    (if frames_tracked t \<ge> min_track_length st then total_tracks_completed st + 1
                     else total_tracks_completed st)\<rparr>)"
    using ls by simp
  have "absent f 11 = absent f 10 @ [([], f + 10)]"
    using absent_snoc[of f 10] by simp
  then show "run_updates st (absent f 11) =
           Inr (st\<lparr>frame_count := f + 10, tracked_objects := [(k, ?t10)],
                  total_tracks_completed :=
                    (if frames_tracked t \<ge> min_track_length st then total_tracks_completed st + 1
                     else total_tracks_completed st)\<rparr>)"
    using run_updates_snoc[OF r10 u11] by simp
qed

lemma scenario_nine_absent:
  "\<exists>s. run_updates (tracker_init default_config) (present3 d @ absent 4 9) = Inr s
     \<and> map (\<lambda>kt. (frames_tracked (snd kt), frames_lost (snd kt), is_active (snd kt)))
          (tracked_objects s) = [(3, 9, True)]"
proof -
  from present3_run[of d] obtain s t where
    r: "run_updates (tracker_init default_config) (present3 d) = Inr s"
    and p: "tracked_objects s = [(1, t)]" "is_active t" "frames_lost t = 0"
      "frames_tracked t = 3" "last_seen_frame t = 3"
      "max_frames_lost s = 10" "min_track_length s = 5" "total_tracks_completed s = 0"
    by blast
  have "4 + 10 - last_seen_frame t \<le> 100" using p by simp
  from run_updates_then[OF r lone_track_lost(1)[OF p(1) p(2) p(3) p(6) this]] p
  show ?thesis by simp
qed

lemma scenario_ten_absent:
  "\<exists>s. run_updates (tracker_init default_config) (present3 d @ absent 4 10) = Inr s
     \<and> map (\<lambda>kt. (frames_tracked (snd kt), frames_lost (snd kt), is_active (snd kt)))
          (tracked_objects s) = [(3, 10, False)]
     \<and> total_tracks_completed s = 0
     \<and> stat_completed_tracks (get_tracking_statistics s) = 0"
proof -
  from present3_run[of d] obtain s t where
    r: "run_updates (tracker_init default_config) (present3 d) = Inr s"
    and p: "tracked_objects s = [(1, t)]" "is_active t" "frames_lost t = 0"
      "frames_tracked t = 3" "last_seen_frame t = 3"
      "max_frames_lost s = 10" "min_track_length s = 5" "total_tracks_completed s = 0"
    by blast
  have "4 + 10 - last_seen_frame t \<le> 100" using p by simp
  from run_updates_then[OF r lone_track_lost(2)[OF p(1) p(2) p(3) p(6) this]] p
  show ?thesis by (simp add: get_tracking_statistics_def completed_tracks_def)
qed

lemma scenario_eleven_absent:
  "\<exists>s. run_updates (tracker_init default_config) (present3 d @ absent 4 11) = Inr s
     \<and> map (\<lambda>kt. (frames_tracked (snd kt), frames_lost (snd kt), is_active (snd kt)))
          (tracked_objects s) = [(3, 10, False)]
     \<and> total_tracks_completed s = 0
     \<and> stat_completed_tracks (get_tracking_statistics s) = 0"
proof -
  from present3_run[of d] obtain s t where
    r: "run_updates (tracker_init default_config) (present3 d) = Inr s"
    and p: "tracked_objects s = [(1, t)]" "is_active t" "frames_lost t = 0"
      "frames_tracked t = 3" "last_seen_frame t = 3"
      "max_frames_lost s = 10" "min_track_length s = 5" "total_tracks_completed s = 0"
    by blast
  have "4 + 10 - last_seen_frame t \<le> 100" using p by simp
  from run_updates_then[OF r lone_track_lost(3)[OF p(1) p(2) p(3) p(6) this]] p
  show ?thesis by (simp add: get_tracking_statistics_def completed_tracks_def)
qed

lemma scenario_purge:
  "\<exists>s1 out s2.
         run_updates (tracker_init default_config) (present5 (det_at 100 100) @ absent 6 10)
           = Inr s1
         \<and> update s1 [] 106 = Inr (out, s2)
         \<and> stat_completed_tracks (get_tracking_statistics s1) = 1
         \<and> stat_average_track_length (get_tracking_statistics s1) = 5
         \<and> total_tracks_completed s1 = 1
         \<and> tracked_objects s2 = []
         \<and> stat_completed_tracks (get_tracking_statistics s2) = 0
         \<and> stat_average_track_length (get_tracking_statistics s2) = 0
         \<and> total_tracks_completed s2 = 1
         \<and> stat_completed_tracks (get_tracking_statistics s2)
             < stat_completed_tracks (get_tracking_statistics s1)
         \<and> stat_completed_tracks (get_tracking_statistics s2) < total_tracks_completed s2"
proof -
  from present5_run[of "det_at 100 100"] obtain s t where
    r: "run_updates (tracker_init default_config) (present5 (det_at 100 100)) = Inr s"
    and p: "tracked_objects s = [(1, t)]" "is_active t" "frames_lost t = 0"
      "frames_tracked t = 5" "last_seen_frame t = 5"
      "max_frames_lost s = 10" "min_track_length s = 5" "total_tracks_completed s = 0"
    by blast
  have ls: "6 + 10 - last_seen_frame t \<le> 100" using p by simp
  let ?t10 = "t\<lparr>frames_lost := 10, is_active := False,
                exit_point := Some (get_exit_point (s\<lparr>frame_count := 6 + 9\<rparr>) (t_center t))\<rparr>"
  let ?s1 = "s\<lparr>frame_count := 6 + 9, tracked_objects := [(1, ?t10)],
                  total_tracks_completed :=
                    (if frames_tracked t \<ge> min_track_length s then total_tracks_completed s + 1
                     else total_tracks_completed s)\<rparr>"
  have r1: "run_updates (tracker_init default_config) (present5 (det_at 100 100) @ absent 6 10)
      = Inr ?s1"
    by (rule run_updates_then[OF r lone_track_lost(2)[OF p(1) p(2) p(3) p(6) ls]])
  have "update ?s1 [] 106 =
     Inr ([], ?s1\<lparr>frame_count := 106,
             tracked_objects := (if 106 - last_seen_frame ?t10 > 100 then [] else [(1, ?t10)])\<rparr>)"
    by (intro update_absent_inactive) auto
  then have u: "update ?s1 [] 106 = Inr ([], ?s1\<lparr>frame_count := 106, tracked_objects := []\<rparr>)"
    using p by simp
  show ?thesis
    apply (rule exI[of _ ?s1], rule exI[of _ "[]"],
        rule exI[of _ "?s1\<lparr>frame_count := 106, tracked_objects := []\<rparr>"])
    using r1 u p
    by (simp add: get_tracking_statistics_def completed_tracks_def np_mean_def)
qed

subsection \<open>Claim C2\<close>

text \<open>
  Claim C2, as amended. With \<^verbatim>\<open>max_frames_lost = 10\<close> and \<^verbatim>\<open>min_track_length = 5\<close> (the
  values set by the constructor), a track created from a detection that is present in
  frames 1 to 3 and absent from frame 4 on is still active after the ninth absent frame
  and becomes inactive on the tenth, when \<^verbatim>\<open>frames_lost\<close> reaches 10; the eleventh absent
  frame leaves it as it is. With \<^verbatim>\<open>frames_tracked = 3\<close> it is not counted as completed,
  neither by the cumulative counter nor by the statistics.
\<close>

theorem lost_track_inactive_on_tenth_absent_frame:
  "max_frames_lost (tracker_init default_config) = 10
   \<and> min_track_length (tracker_init default_config) = 5
   \<and> (\<exists>s. run_updates (tracker_init default_config) (present3 d @ absent 4 9) = Inr s
        \<and> map (\<lambda>kt. (frames_tracked (snd kt), frames_lost (snd kt), is_active (snd kt)))
             (tracked_objects s) = [(3, 9, True)])
   \<and> (\<exists>s. run_updates (tracker_init default_config) (present3 d @ absent 4 10) = Inr s
        \<and> map (\<lambda>kt. (frames_tracked (snd kt), frames_lost (snd kt), is_active (snd kt)))
             (tracked_objects s) = [(3, 10, False)]
        \<and> total_tracks_completed s = 0
        \<and> stat_completed_tracks (get_tracking_statistics s) = 0)
   \<and> (\<exists>s. run_updates (tracker_init default_config) (present3 d @ absent 4 11) = Inr s
        \<and> map (\<lambda>kt. (frames_tracked (snd kt), frames_lost (snd kt), is_active (snd kt)))
             (tracked_objects s) = [(3, 10, False)]
        \<and> total_tracks_completed s = 0
        \<and> stat_completed_tracks (get_tracking_statistics s) = 0)"
proof -
  have m: "max_frames_lost (tracker_init default_config) = 10"
    and l: "min_track_length (tracker_init default_config) = 5"
    by (simp_all add: tracker_init_def Let_def)
  show ?thesis
    by (rule conjI[OF m conjI[OF l conjI[OF scenario_nine_absent
          conjI[OF scenario_ten_absent scenario_eleven_absent]]]])
qed

text \<open>
  The claim as stated puts the transition on the eleventh absent frame, so the track
  would still be active after the tenth. It is not.
\<close>

theorem inactive_after_ten_absent_frames_counterexample:
  "\<exists>s. run_updates (tracker_init default_config)
          (present3 (det_at 100 100) @ absent 4 10) = Inr s
     \<and> map (\<lambda>kt. is_active (snd kt)) (tracked_objects s) = [False]"
proof -
  from scenario_ten_absent[of "det_at 100 100"] obtain s where
    r: "run_updates (tracker_init default_config) (present3 (det_at 100 100) @ absent 4 10) = Inr s"
    and m: "map (\<lambda>kt. (frames_tracked (snd kt), frames_lost (snd kt), is_active (snd kt)))
          (tracked_objects s) = [(3, 10, False)]"
    by (elim exE conjE)
  from m have "map (\<lambda>kt. is_active (snd kt)) (tracked_objects s) = [False]"
    by (cases "tracked_objects s") auto
  with r show ?thesis by (intro exI[of _ s] conjI)
qed

subsection \<open>Claim C3\<close>



subsection \<open>Claim C10\<close>

text \<open>
  Claim C10. The completed-track count and the average track length reported by
  \<^verbatim>\<open>get_tracking_statistics\<close> are computed over the tracks still in the table that are
  inactive and have \<^verbatim>\<open>frames_tracked\<close> at least \<^verbatim>\<open>min_track_length\<close>. Since the cleanup
  deletes a track that is inactive and was last seen more than 100 frames ago, the
  reported values can go down from one update to the next and can be strictly below the
  cumulative counter \<^verbatim>\<open>total_tracks_completed\<close>: a track seen in frames 1 to 5 and lost
  in frames 6 to 15 is reported as completed with length 5, and the update for frame
  106 removes it, after which the report is 0 and 0 while the counter stays 1.
\<close>

theorem completed_statistics_over_table:
  "stat_completed_tracks (get_tracking_statistics st) =
     int (length (filter (\<lambda>t. \<not> is_active t \<and> frames_tracked t \<ge> min_track_length st)
                    (map snd (tracked_objects st))))
   \<and> stat_average_track_length (get_tracking_statistics st) =
       (if filter (\<lambda>t. \<not> is_active t \<and> frames_tracked t \<ge> min_track_length st)
             (map snd (tracked_objects st)) = [] then 0
        else np_mean (map (\<lambda>t. real_of_int (frames_tracked t))
               (filter (\<lambda>t. \<not> is_active t \<and> frames_tracked t \<ge> min_track_length st)
                  (map snd (tracked_objects st)))))
   \<and> (\<exists>s1 out s2.
         run_updates (tracker_init default_config) (present5 (det_at 100 100) @ absent 6 10)
           = Inr s1
         \<and> update s1 [] 106 = Inr (out, s2)
         \<and> stat_completed_tracks (get_tracking_statistics s1) = 1
         \<and> stat_average_track_length (get_tracking_statistics s1) = 5
         \<and> total_tracks_completed s1 = 1
         \<and> tracked_objects s2 = []
         \<and> stat_completed_tracks (get_tracking_statistics s2) = 0
         \<and> stat_average_track_length (get_tracking_statistics s2) = 0
         \<and> total_tracks_completed s2 = 1
         \<and> stat_completed_tracks (get_tracking_statistics s2)
             < stat_completed_tracks (get_tracking_statistics s1)
         \<and> stat_completed_tracks (get_tracking_statistics s2) < total_tracks_completed s2)"
proof -
  have a: "stat_completed_tracks (get_tracking_statistics st) =
     int (length (filter (\<lambda>t. \<not> is_active t \<and> frames_tracked t \<ge> min_track_length st)
                    (map snd (tracked_objects st))))"
    by (simp add: get_tracking_statistics_def completed_tracks_def Let_def)
  have b: "stat_average_track_length (get_tracking_statistics st) =
       (if filter (\<lambda>t. \<not> is_active t \<and> frames_tracked t \<ge> min_track_length st)
             (map snd (tracked_objects st)) = [] then 0
        else np_mean (map (\<lambda>t. real_of_int (frames_tracked t))
               (filter (\<lambda>t. \<not> is_active t \<and> frames_tracked t \<ge> min_track_length st)
                  (map snd (tracked_objects st)))))"
    by (simp add: get_tracking_statistics_def completed_tracks_def Let_def)
  have c: "\<exists>s1 out s2.
         run_updates (tracker_init default_config) (present5 (det_at 100 100) @ absent 6 10)
           = Inr s1
         \<and> update s1 [] 106 = Inr (out, s2)
         \<and> stat_completed_tracks (get_tracking_statistics s1) = 1
         \<and> stat_average_track_length (get_tracking_statistics s1) = 5
         \<and> total_tracks_completed s1 = 1
         \<and> tracked_objects s2 = []
         \<and> stat_completed_tracks (get_tracking_statistics s2) = 0
         \<and> stat_average_track_length (get_tracking_statistics s2) = 0
         \<and> total_tracks_completed s2 = 1
         \<and> stat_completed_tracks (get_tracking_statistics s2)
             < stat_completed_tracks (get_tracking_statistics s1)
         \<and> stat_completed_tracks (get_tracking_statistics s2) < total_tracks_completed s2"
    by (rule scenario_purge)
  show ?thesis by (rule conjI[OF a conjI[OF b c]])
qed

subsection \<open>The greedy association\<close>

lemma clear_entry:
  assumes "a < length cm" "b < length (cm ! a)" "i < length cm"
  shows "clear_col j (clear_row i cm) ! a ! b = (if a = i \<or> b = j then None else cm ! a ! b)"
proof (cases "a = i")
  case True
  have "(map (\<lambda>_. None :: real option) (cm ! i))[j := None] ! b = None"
    using assms True by (cases "b = j") (simp_all add: nth_list_update)
  then show ?thesis using assms True by (simp add: clear_col_def clear_row_def)
next
  case False
  then show ?thesis using assms
    by (cases "b = j") (simp_all add: clear_col_def clear_row_def nth_list_update)
qed

lemma clear_row_length:
  assumes "a < length cm"
  shows "length (clear_col j (clear_row i cm) ! a) = length (cm ! a)"
  using assms by (cases "a = i") (auto simp: clear_col_def clear_row_def nth_list_update)

lemma remove1_filter_distinct:
  "distinct xs \<Longrightarrow> remove1 x (filter P xs) = filter (\<lambda>y. P y \<and> y \<noteq> x) xs"
proof -
  assume d: "distinct xs"
  then have "distinct (filter P xs)" by simp
  then have "remove1 x (filter P xs) = filter (\<lambda>y. y \<noteq> x) (filter P xs)"
    by (simp add: distinct_remove1_removeAll removeAll_filter_not_eq) (metis)
  then show ?thesis by (simp add: conj_commute)
qed

lemma mset_indices_sub:
  assumes "distinct js" "\<forall>j \<in> set js. j < n"
  shows "mset js \<subseteq># mset [0..<n]"
proof -
  have "mset js = mset_set (set js)" using assms(1) by (simp add: mset_set_set)
  moreover have "mset [0..<n] = mset_set {0..<n}" by (simp add: mset_upt)
  moreover have "set js \<subseteq> {0..<n}" using assms(2) by auto
  ultimately show ?thesis by (simp add: subset_imp_msubset_mset_set)
qed

lemma mset_nth_sub:
  assumes "distinct js" "\<forall>j \<in> set js. j < length xs"
  shows "mset (map (\<lambda>j. xs ! j) js) \<subseteq># mset xs"
proof -
  have "image_mset (\<lambda>j. xs ! j) (mset js) \<subseteq># image_mset (\<lambda>j. xs ! j) (mset [0..<length xs])"
    by (rule image_mset_subseteq_mono[OF mset_indices_sub[OF assms]])
  moreover have "image_mset (\<lambda>j. xs ! j) (mset [0..<length xs]) = mset xs"
    by (metis map_nth mset_map)
  ultimately show ?thesis by simp
qed

lemma mset_move: "x \<in># A \<Longrightarrow> add_mset x (A - {#x#} + U) = A + U"
  by simp

lemma greedy_step_inv:
  assumes inv: "greedy_inv tids dets cm0 ps s"
    and dt: "distinct tids"
    and am: "argmin_index (cost_matrix s) (length dets) = Some (i, j)"
    and fin: "cost_matrix s ! i ! j = Some c"
  shows "greedy_inv tids dets cm0 (ps @ [(i, j)])
           \<lparr>cost_matrix = clear_col j (clear_row i (cost_matrix s)),
            associations = dict_set (tids ! i) (dets ! j) (associations s),
            unmatched_detections = remove1 (dets ! j) (unmatched_detections s),
            unmatched_tracks = remove1 (tids ! i) (unmatched_tracks s)\<rparr>"
proof -
  from inv have len: "length (cost_matrix s) = length tids"
    and rows: "\<forall>i<length tids. length (cost_matrix s ! i) = length dets"
    and cells: "\<forall>i<length tids. \<forall>j<length dets.
           cost_matrix s ! i ! j =
             (if i \<in> fst ` set ps \<or> j \<in> snd ` set ps then None else cm0 ! i ! j)"
    and pb: "\<forall>p \<in> set ps. fst p < length tids \<and> snd p < length dets \<and> cm0 ! fst p ! snd p \<noteq> None"
    and d1: "distinct (map fst ps)" and d2: "distinct (map snd ps)"
    and as: "associations s = map (\<lambda>p. (tids ! fst p, dets ! snd p)) ps"
    and ut: "unmatched_tracks s = filter (\<lambda>k. k \<notin> (\<lambda>p. tids ! fst p) ` set ps) tids"
    and ud: "mset (unmatched_detections s) + mset (map (\<lambda>p. dets ! snd p) ps) = mset dets"
    unfolding greedy_inv_def by blast+
  from argmin_index_bounds[OF am] len have ib: "i < length tids" and jb: "j < length dets"
    by auto
  from cells ib jb fin have ni: "i \<notin> fst ` set ps" and nj: "j \<notin> snd ` set ps"
    and c0: "cm0 ! i ! j = Some c"
    by (auto split: if_splits)
  have A: "length (clear_col j (clear_row i (cost_matrix s))) = length tids"
    using len by (simp add: length_clear)
  have B: "\<forall>a<length tids. length (clear_col j (clear_row i (cost_matrix s)) ! a) = length dets"
    using rows len by (simp add: clear_row_length)
  have C: "\<forall>a<length tids. \<forall>b<length dets.
      clear_col j (clear_row i (cost_matrix s)) ! a ! b =
        (if a \<in> fst ` set (ps @ [(i, j)]) \<or> b \<in> snd ` set (ps @ [(i, j)]) then None
         else cm0 ! a ! b)"
  proof (intro allI impI)
    fix a b assume a: "a < length tids" and b: "b < length dets"
    have "clear_col j (clear_row i (cost_matrix s)) ! a ! b
        = (if a = i \<or> b = j then None else cost_matrix s ! a ! b)"
      using a b ib len rows by (intro clear_entry) auto
    also have "\<dots> = (if a \<in> fst ` set (ps @ [(i, j)]) \<or> b \<in> snd ` set (ps @ [(i, j)]) then None
         else cm0 ! a ! b)"
      using cells a b by auto
    finally show "clear_col j (clear_row i (cost_matrix s)) ! a ! b =
        (if a \<in> fst ` set (ps @ [(i, j)]) \<or> b \<in> snd ` set (ps @ [(i, j)]) then None
         else cm0 ! a ! b)" .
  qed
  have D: "\<forall>p \<in> set (ps @ [(i, j)]).
      fst p < length tids \<and> snd p < length dets \<and> cm0 ! fst p ! snd p \<noteq> None"
    using pb ib jb c0 by auto
  have E: "distinct (map fst (ps @ [(i, j)]))" "distinct (map snd (ps @ [(i, j)]))"
    using d1 d2 ni nj by auto
  have newkey: "tids ! i \<notin> fst ` set (associations s)"
  proof
    assume "tids ! i \<in> fst ` set (associations s)"
    then obtain p where p: "p \<in> set ps" and e: "tids ! i = tids ! fst p"
      unfolding as by auto
    from pb p have "fst p < length tids" by auto
    with e ib dt have "i = fst p" by (simp add: nth_eq_iff_index_eq)
    with p ni show False by auto
  qed
  have F: "dict_set (tids ! i) (dets ! j) (associations s)
      = map (\<lambda>p. (tids ! fst p, dets ! snd p)) (ps @ [(i, j)])"
    using dict_set_new[OF newkey] as by simp
  have G: "remove1 (tids ! i) (unmatched_tracks s)
      = filter (\<lambda>k. k \<notin> (\<lambda>p. tids ! fst p) ` set (ps @ [(i, j)])) tids"
    unfolding ut remove1_filter_distinct[OF dt] by (rule filter_cong) auto
  have sub: "mset (map (\<lambda>k. dets ! k) (j # map snd ps)) \<subseteq># mset dets"
    using d2 nj jb pb by (intro mset_nth_sub) auto
  have "add_mset (dets ! j) (mset (map (\<lambda>p. dets ! snd p) ps)) \<subseteq>#
        mset (unmatched_detections s) + mset (map (\<lambda>p. dets ! snd p) ps)"
    using sub unfolding ud by (simp add: comp_def)
  then have "dets ! j \<in># mset (unmatched_detections s)"
    by (metis add_mset_add_single mset_subset_eq_mono_add_right_cancel
        mset_subset_eq_single single_subset_iff subset_mset.add_le_cancel_right
        union_commute insert_subset_eq_iff)
  then have e2: "add_mset (dets ! j)
        (mset (unmatched_detections s) - {#dets ! j#} + mset (map (\<lambda>p. dets ! snd p) ps))
      = mset (unmatched_detections s) + mset (map (\<lambda>p. dets ! snd p) ps)"
    by (rule mset_move)
  have e1: "mset (remove1 (dets ! j) (unmatched_detections s))
        + mset (map (\<lambda>p. dets ! snd p) (ps @ [(i, j)]))
      = add_mset (dets ! j)
        (mset (unmatched_detections s) - {#dets ! j#} + mset (map (\<lambda>p. dets ! snd p) ps))"
    by simp
  have H: "mset (remove1 (dets ! j) (unmatched_detections s))
        + mset (map (\<lambda>p. dets ! snd p) (ps @ [(i, j)])) = mset dets"
    unfolding e1 e2 by (rule ud)
  show ?thesis
    unfolding greedy_inv_def using A B C D E F G H by simp
qed

lemma greedy_loop_inv:
  "greedy_inv tids dets cm0 ps s \<Longrightarrow> distinct tids \<Longrightarrow>
   \<exists>ps'. greedy_inv tids dets cm0 ps' (greedy_loop n tids dets s)"
proof (induction n arbitrary: s ps)
  case 0
  then show ?case by auto
next
  case (Suc n)
  show ?case
  proof (cases "argmin_index (cost_matrix s) (length dets)")
    case None
    then show ?thesis using Suc.prems by auto
  next
    case (Some p)
    obtain i j where p: "p = (i, j)" by (cases p)
    show ?thesis
    proof (cases "cost_matrix s ! i ! j")
      case None
      then show ?thesis using Some p Suc.prems by auto
    next
      case (Some c)
      let ?s' = "\<lparr>cost_matrix = clear_col j (clear_row i (cost_matrix s)),
                 associations = dict_set (tids ! i) (dets ! j) (associations s),
                 unmatched_detections = remove1 (dets ! j) (unmatched_detections s),
                 unmatched_tracks = remove1 (tids ! i) (unmatched_tracks s)\<rparr>"
      have am: "argmin_index (cost_matrix s) (length dets) = Some (i, j)"
        using \<open>argmin_index (cost_matrix s) (length dets) = Some p\<close> p by simp
      have "greedy_inv tids dets cm0 (ps @ [(i, j)]) ?s'"
        by (rule greedy_step_inv[OF Suc.prems(1) Suc.prems(2) am Some])
      from Suc.IH[OF this Suc.prems(2)] obtain ps' where
        "greedy_inv tids dets cm0 ps' (greedy_loop n tids dets ?s')" by blast
      then show ?thesis using am Some by (auto simp: Let_def)
    qed
  qed
qed

lemma greedy_inv_init:
  "greedy_inv (map fst act) dets (build_cost_matrix st act dets) []
     \<lparr>cost_matrix = build_cost_matrix st act dets, associations = [],
      unmatched_detections = dets, unmatched_tracks = map fst act\<rparr>"
  by (simp add: greedy_inv_def build_cost_matrix_def)

text \<open>What the association returns, in terms of the chosen cells.\<close>

lemma associate_cells:
  assumes dk: "distinct (map fst (tracked_objects st))"
  shows "\<exists>ps ud. associate_detections st dets =
       (map (\<lambda>p. (fst (filter (\<lambda>kt. is_active (snd kt)) (tracked_objects st) ! fst p),
                   dets ! snd p)) ps,
        ud,
        filter (\<lambda>k. k \<notin> (\<lambda>p. fst (filter (\<lambda>kt. is_active (snd kt)) (tracked_objects st) ! fst p))
                          ` set ps)
          (map fst (filter (\<lambda>kt. is_active (snd kt)) (tracked_objects st))))
     \<and> (\<forall>p \<in> set ps. fst p < length (filter (\<lambda>kt. is_active (snd kt)) (tracked_objects st))
           \<and> snd p < length dets
           \<and> cost_entry st (snd (filter (\<lambda>kt. is_active (snd kt)) (tracked_objects st) ! fst p))
                 (dets ! snd p) \<noteq> None)
     \<and> distinct (map fst ps) \<and> distinct (map snd ps)
     \<and> mset ud + mset (map (\<lambda>p. dets ! snd p) ps) = mset dets"
proof -
  let ?act = "filter (\<lambda>kt. is_active (snd kt)) (tracked_objects st)"
  let ?tids = "map fst ?act"
  let ?cm0 = "build_cost_matrix st ?act dets"
  show ?thesis
  proof (cases "?act = []")
    case True
    then have "associate_detections st dets = ([], dets, [])"
      by (simp add: associate_detections_def Let_def)
    then show ?thesis using True by (intro exI[of _ "[]"] exI[of _ dets]) simp
  next
    case False
    then have ne: "tracked_objects st \<noteq> []" by auto
    let ?s0 = "\<lparr>cost_matrix = ?cm0, associations = [],
      unmatched_detections = dets, unmatched_tracks = ?tids\<rparr>"
    let ?s = "greedy_loop (min (length ?tids) (length dets)) ?tids dets ?s0"
    have dt: "distinct ?tids" using dk by (simp add: distinct_map_filter)
    from greedy_loop_inv[OF greedy_inv_init dt] obtain ps where
      inv: "greedy_inv ?tids dets ?cm0 ps ?s" by blast
    have res: "associate_detections st dets =
        (associations ?s, unmatched_detections ?s, unmatched_tracks ?s)"
      using False ne by (simp add: associate_detections_def Let_def)
    from inv have pb: "\<forall>p \<in> set ps. fst p < length ?tids \<and> snd p < length dets
          \<and> ?cm0 ! fst p ! snd p \<noteq> None"
      and d1: "distinct (map fst ps)" and d2: "distinct (map snd ps)"
      and as: "associations ?s = map (\<lambda>p. (?tids ! fst p, dets ! snd p)) ps"
      and ut: "unmatched_tracks ?s = filter (\<lambda>k. k \<notin> (\<lambda>p. ?tids ! fst p) ` set ps) ?tids"
      and ud: "mset (unmatched_detections ?s) + mset (map (\<lambda>p. dets ! snd p) ps) = mset dets"
      unfolding greedy_inv_def by blast+
    have nthk: "\<And>p. p \<in> set ps \<Longrightarrow> ?tids ! fst p = fst (?act ! fst p)"
      using pb by simp
    have as': "associations ?s = map (\<lambda>p. (fst (?act ! fst p), dets ! snd p)) ps"
      unfolding as using nthk by (intro map_cong) auto
    have img: "(\<lambda>p. ?tids ! fst p) ` set ps = (\<lambda>p. fst (?act ! fst p)) ` set ps"
      using nthk by (intro image_cong) auto
    have ut': "unmatched_tracks ?s = filter (\<lambda>k. k \<notin> (\<lambda>p. fst (?act ! fst p)) ` set ps) ?tids"
      unfolding ut img ..
    have ce: "\<forall>p \<in> set ps. fst p < length ?act \<and> snd p < length dets
          \<and> cost_entry st (snd (?act ! fst p)) (dets ! snd p) \<noteq> None"
      using pb by (auto simp: build_cost_matrix_def)
    show ?thesis
      apply (rule exI[of _ ps], rule exI[of _ "unmatched_detections ?s"])
      unfolding res
      using as' ut' ce d1 d2 ud by simp
  qed
qed


lemma associate_facts:
  assumes dk: "distinct (map fst (tracked_objects st))"
  shows "distinct (map fst (fst (associate_detections st dets)))"
    and "mset (map snd (fst (associate_detections st dets)))
           + mset (fst (snd (associate_detections st dets))) = mset dets"
    and "\<forall>a \<in> set (fst (associate_detections st dets)).
           \<exists>t. map_of (tracked_objects st) (fst a) = Some t \<and> is_active t
             \<and> cost_entry st t (snd a) \<noteq> None"
    and "snd (snd (associate_detections st dets)) =
           filter (\<lambda>k. k \<notin> fst ` set (fst (associate_detections st dets)))
             (map fst (filter (\<lambda>kt. is_active (snd kt)) (tracked_objects st)))"
proof -
  let ?act = "filter (\<lambda>kt. is_active (snd kt)) (tracked_objects st)"
  from associate_cells[OF dk, of dets] obtain ps ud where
    res: "associate_detections st dets =
       (map (\<lambda>p. (fst (?act ! fst p), dets ! snd p)) ps, ud,
        filter (\<lambda>k. k \<notin> (\<lambda>p. fst (?act ! fst p)) ` set ps) (map fst ?act))"
    and ce: "\<forall>p \<in> set ps. fst p < length ?act \<and> snd p < length dets
           \<and> cost_entry st (snd (?act ! fst p)) (dets ! snd p) \<noteq> None"
    and d1: "distinct (map fst ps)" and d2: "distinct (map snd ps)"
    and ud: "mset ud + mset (map (\<lambda>p. dets ! snd p) ps) = mset dets"
    by blast
  have fa: "fst (associate_detections st dets) = map (\<lambda>p. (fst (?act ! fst p), dets ! snd p)) ps"
    unfolding res by simp
  have fu: "fst (snd (associate_detections st dets)) = ud"
    unfolding res by simp
  have ua: "snd (snd (associate_detections st dets)) =
      filter (\<lambda>k. k \<notin> (\<lambda>p. fst (?act ! fst p)) ` set ps) (map fst ?act)"
    unfolding res by simp
  have dact: "distinct (map fst ?act)" using dk by (simp add: distinct_map_filter)
  have keys: "map fst (fst (associate_detections st dets)) = map (\<lambda>i. map fst ?act ! i) (map fst ps)"
    unfolding fa using ce by (auto simp: comp_def)
  have inj: "inj_on (\<lambda>i. map fst ?act ! i) (set (map fst ps))"
  proof (rule inj_onI)
    fix a b assume a: "a \<in> set (map fst ps)" and b: "b \<in> set (map fst ps)"
      and e: "map fst ?act ! a = map fst ?act ! b"
    from a b ce have "a < length (map fst ?act)" "b < length (map fst ?act)" by auto
    with e dact show "a = b" by (metis nth_eq_iff_index_eq)
  qed
  have "distinct (map (\<lambda>i. map fst ?act ! i) (map fst ps))"
    by (subst distinct_map) (use d1 inj in blast)
  then show "distinct (map fst (fst (associate_detections st dets)))"
    unfolding keys .
  have "map snd (fst (associate_detections st dets)) = map (\<lambda>p. dets ! snd p) ps"
    unfolding fa by (simp add: comp_def)
  then show "mset (map snd (fst (associate_detections st dets)))
           + mset (fst (snd (associate_detections st dets))) = mset dets"
    using ud fu by (simp add: union_commute)
  show "\<forall>a \<in> set (fst (associate_detections st dets)).
           \<exists>t. map_of (tracked_objects st) (fst a) = Some t \<and> is_active t
             \<and> cost_entry st t (snd a) \<noteq> None"
  proof
    fix a assume "a \<in> set (fst (associate_detections st dets))"
    then obtain p where p: "p \<in> set ps" and a: "a = (fst (?act ! fst p), dets ! snd p)"
      unfolding fa by auto
    from ce p have lt: "fst p < length ?act"
      and fin: "cost_entry st (snd (?act ! fst p)) (dets ! snd p) \<noteq> None" by auto
    from lt have mem: "?act ! fst p \<in> set ?act" by (rule nth_mem)
    then have m1: "?act ! fst p \<in> set (tracked_objects st)" and ac: "is_active (snd (?act ! fst p))"
      by auto
    from m1 dk have "map_of (tracked_objects st) (fst (?act ! fst p)) = Some (snd (?act ! fst p))"
      by (intro map_of_is_SomeI) auto
    with ac fin a show "\<exists>t. map_of (tracked_objects st) (fst a) = Some t \<and> is_active t
             \<and> cost_entry st t (snd a) \<noteq> None" by auto
  qed
  have "fst ` set (fst (associate_detections st dets)) = (\<lambda>p. fst (?act ! fst p)) ` set ps"
    unfolding fa by (simp add: image_image)
  then show "snd (snd (associate_detections st dets)) =
           filter (\<lambda>k. k \<notin> fst ` set (fst (associate_detections st dets)))
             (map fst (filter (\<lambda>kt. is_active (snd kt)) (tracked_objects st)))"
    using ua by simp
qed

subsection \<open>Claim C4\<close>



subsection \<open>The phases of an update call\<close>

lemma map_of_present: "k \<in> fst ` set d \<Longrightarrow> \<exists>v. map_of d k = Some v"
  by (induction d) auto

lemma map_of_keys: "map_of d k = Some v \<Longrightarrow> k \<in> fst ` set d"
  by (induction d) (auto split: if_splits)

lemma crossed_in_Cons:
  "crossed_in (kt # tbl) = (if has_crossed_line (snd kt) then 1 else 0) + crossed_in tbl"
  by (simp add: crossed_in_def)

lemma crossed_in_append:
  "crossed_in (tbl @ tbl') = crossed_in tbl + crossed_in tbl'"
  by (simp add: crossed_in_def)

lemma crossed_in_dict_set:
  assumes "distinct (map fst tbl)" "map_of tbl k = Some t"
  shows "crossed_in (dict_set k t' tbl) =
     crossed_in tbl - (if has_crossed_line t then 1 else 0)
       + (if has_crossed_line t' then 1 else 0)"
  using assms
proof (induction tbl)
  case Nil
  then show ?case by simp
next
  case (Cons p tbl)
  show ?case
  proof (cases "fst p = k")
    case True
    with Cons.prems have "snd p = t" by (cases p) auto
    with True show ?thesis by (simp add: crossed_in_Cons)
  next
    case False
    with Cons.prems have "map_of tbl k = Some t" "distinct (map fst tbl)" by (cases p; auto)+
    from Cons.IH[OF this(2) this(1)] False show ?thesis by (simp add: crossed_in_Cons)
  qed
qed

lemma count_sum_upd:
  "count_sum (c(d := c d + 1)) = count_sum c + 1"
  "count_sum (\<lambda>a. if a = d then c d + 1 else c a) = count_sum c + 1"
  by (cases d; simp add: count_sum_def)+

lemma check_lines_props:
  "has_crossed_line (fst s) \<longrightarrow> check_lines ls oc nc s = s"
  "fst (check_lines ls oc nc s) =
     (fst s)\<lparr>has_crossed_line := has_crossed_line (fst (check_lines ls oc nc s))\<rparr>"
  "has_crossed_line (fst (check_lines ls oc nc s)) \<or> \<not> has_crossed_line (fst s)"
  "count_sum (snd (check_lines ls oc nc s)) =
     count_sum (snd s)
       + (if \<not> has_crossed_line (fst s) \<and> has_crossed_line (fst (check_lines ls oc nc s))
          then 1 else 0)"
  "snd s d \<le> snd (check_lines ls oc nc s) d"
proof -
  have set: "has_crossed_line (fst s) \<Longrightarrow> check_lines ls oc nc s = s" for s ls
    by (induction ls) (simp_all add: Let_def)
  then show "has_crossed_line (fst s) \<longrightarrow> check_lines ls oc nc s = s" by simp
  show "fst (check_lines ls oc nc s) =
     (fst s)\<lparr>has_crossed_line := has_crossed_line (fst (check_lines ls oc nc s))\<rparr>"
  proof (induction ls arbitrary: s)
    case Nil
    then show ?case by simp
  next
    case (Cons l ls)
    show ?case
    proof (cases "line_intersection oc nc (line_start l) (line_end l) \<and> \<not> has_crossed_line (fst s)")
      case True
      let ?s' = "((fst s)\<lparr>has_crossed_line := True\<rparr>,
                 (snd s)(get_crossing_direction oc nc l := snd s (get_crossing_direction oc nc l) + 1))"
      have "check_lines (l # ls) oc nc s = check_lines ls oc nc ?s'"
        using True by (simp add: Let_def)
      also have "\<dots> = ?s'" by (rule set) simp
      finally show ?thesis by simp
    next
      case False
      then have "check_lines (l # ls) oc nc s = check_lines ls oc nc s"
        by (auto simp: Let_def)
      then show ?thesis using Cons.IH[of s] by simp
    qed
  qed
  show "has_crossed_line (fst (check_lines ls oc nc s)) \<or> \<not> has_crossed_line (fst s)"
    using set[of s] by auto
  show "count_sum (snd (check_lines ls oc nc s)) =
     count_sum (snd s)
       + (if \<not> has_crossed_line (fst s) \<and> has_crossed_line (fst (check_lines ls oc nc s))
          then 1 else 0)"
  proof (induction ls arbitrary: s)
    case Nil
    then show ?case by simp
  next
    case (Cons l ls)
    show ?case
    proof (cases "line_intersection oc nc (line_start l) (line_end l) \<and> \<not> has_crossed_line (fst s)")
      case True
      let ?d = "get_crossing_direction oc nc l"
      let ?s' = "((fst s)\<lparr>has_crossed_line := True\<rparr>, (snd s)(?d := snd s ?d + 1))"
      have "check_lines (l # ls) oc nc s = check_lines ls oc nc ?s'"
        using True by (simp add: Let_def)
      also have "\<dots> = ?s'" by (rule set) simp
      finally have e: "check_lines (l # ls) oc nc s = ?s'" .
      show ?thesis unfolding e using True by (simp add: count_sum_upd)
    next
      case False
      then have "check_lines (l # ls) oc nc s = check_lines ls oc nc s"
        by (auto simp: Let_def)
      then show ?thesis using Cons.IH[of s] by simp
    qed
  qed
  show "snd s d \<le> snd (check_lines ls oc nc s) d"
  proof (induction ls arbitrary: s)
    case Nil
    then show ?case by simp
  next
    case (Cons l ls)
    show ?case
    proof (cases "line_intersection oc nc (line_start l) (line_end l) \<and> \<not> has_crossed_line (fst s)")
      case True
      let ?d = "get_crossing_direction oc nc l"
      let ?s' = "((fst s)\<lparr>has_crossed_line := True\<rparr>, (snd s)(?d := snd s ?d + 1))"
      have "check_lines (l # ls) oc nc s = check_lines ls oc nc ?s'"
        using True by (simp add: Let_def)
      also have "\<dots> = ?s'" by (rule set) simp
      finally have e: "check_lines (l # ls) oc nc s = ?s'" .
      show ?thesis unfolding e by simp
    next
      case False
      then have "check_lines (l # ls) oc nc s = check_lines ls oc nc s"
        by (auto simp: Let_def)
      then show ?thesis using Cons.IH[of s] by simp
    qed
  qed
qed

lemma moved_track_fields:
  "is_active (moved_track t d fn) = is_active t"
  "has_crossed_line (moved_track t d fn) = has_crossed_line t"
  "frames_lost (moved_track t d fn) = 0"
  "last_seen_frame (moved_track t d fn) = fn"
  "t_center (moved_track t d fn) = center d"
  by (simp_all add: moved_track_def Let_def)

lemma touched_trans: "touched fn t t1 \<Longrightarrow> touched fn t1 t2 \<Longrightarrow> touched fn t t2"
  by (auto simp: touched_def)

lemma same_config_refl: "same_config st st"
  by (simp add: same_config_def)

lemma same_config_trans: "same_config a b \<Longrightarrow> same_config b c \<Longrightarrow> same_config a c"
  by (simp add: same_config_def)

lemma update_track_step:
  assumes dk: "distinct (map fst (tracked_objects st))"
    and m: "map_of (tracked_objects st) k = Some t"
  shows "\<exists>st1 t1. update_track st k d fn = Inr st1
     \<and> tracked_objects st1 = dict_set k t1 (tracked_objects st)
     \<and> touched fn t t1
     \<and> total_crossings st1 - crossed_in (tracked_objects st1)
         = total_crossings st - crossed_in (tracked_objects st)
     \<and> (\<forall>c. crossing_counts st c \<le> crossing_counts st1 c)
     \<and> same_config st st1 \<and> next_track_id st1 = next_track_id st
     \<and> frame_count st1 = frame_count st"
proof -
  let ?mt = "moved_track t d fn"
  let ?r = "check_lines (counting_lines st) (t_center t) (t_center ?mt) (?mt, crossing_counts st)"
  let ?st1 = "st\<lparr>tracked_objects := dict_set k (fst ?r) (tracked_objects st),
                  crossing_counts := snd ?r\<rparr>"
  have u: "update_track st k d fn = Inr ?st1"
    using m by (simp add: update_track_def check_line_crossings_def Let_def)
  have f: "fst ?r = ?mt\<lparr>has_crossed_line := has_crossed_line (fst ?r)\<rparr>"
    using check_lines_props(2)[of "counting_lines st" "t_center t" "t_center ?mt"
        "(?mt, crossing_counts st)"] by simp
  have mono: "has_crossed_line (fst ?r) \<or> \<not> has_crossed_line t"
    using check_lines_props(3)[of "counting_lines st" "t_center t" "t_center ?mt"
        "(?mt, crossing_counts st)"] by (simp add: moved_track_fields)
  have fl: "frames_lost (fst ?r) = 0" "last_seen_frame (fst ?r) = fn"
    "is_active (fst ?r) = is_active t"
    by (subst f, simp add: moved_track_fields)+
  have tch: "touched fn t (fst ?r)"
    using fl mono by (simp add: touched_def)
  have cs: "count_sum (snd ?r) = count_sum (crossing_counts st)
      + (if \<not> has_crossed_line t \<and> has_crossed_line (fst ?r) then 1 else 0)"
    using check_lines_props(4)[of "counting_lines st" "t_center t" "t_center ?mt"
        "(?mt, crossing_counts st)"] by (simp add: moved_track_fields)
  have ci: "crossed_in (dict_set k (fst ?r) (tracked_objects st)) =
     crossed_in (tracked_objects st) - (if has_crossed_line t then 1 else 0)
       + (if has_crossed_line (fst ?r) then 1 else 0)"
    by (rule crossed_in_dict_set[OF dk m])
  have J: "total_crossings ?st1 - crossed_in (tracked_objects ?st1)
         = total_crossings st - crossed_in (tracked_objects st)"
    using cs ci mono by (auto simp: total_crossings_def)
  have le: "\<forall>c. crossing_counts st c \<le> crossing_counts ?st1 c"
    using check_lines_props(5)[of "(?mt, crossing_counts st)" _ "counting_lines st" "t_center t"
        "t_center ?mt"] by simp
  show ?thesis
    apply (rule exI[of _ ?st1], rule exI[of _ "fst ?r"])
    using u tch J le by (simp add: same_config_def)
qed

lemma update_tracks_props:
  assumes "distinct (map fst (tracked_objects st))"
    and "fst ` set assoc \<subseteq> fst ` set (tracked_objects st)"
  shows "\<exists>st1. update_tracks st assoc fn = Inr st1
     \<and> map fst (tracked_objects st1) = map fst (tracked_objects st)
     \<and> (\<forall>k t. map_of (tracked_objects st) k = Some t \<longrightarrow>
           (\<exists>t1. map_of (tracked_objects st1) k = Some t1
              \<and> (if k \<in> fst ` set assoc then touched fn t t1 else t1 = t)))
     \<and> total_crossings st1 - crossed_in (tracked_objects st1)
         = total_crossings st - crossed_in (tracked_objects st)
     \<and> (\<forall>c. crossing_counts st c \<le> crossing_counts st1 c)
     \<and> same_config st st1 \<and> next_track_id st1 = next_track_id st
     \<and> frame_count st1 = frame_count st"
  using assms
proof (induction assoc arbitrary: st)
  case Nil
  then show ?case by (simp add: same_config_refl)
next
  case (Cons a assoc)
  let ?k = "fst a"
  from Cons.prems(2) have "?k \<in> fst ` set (tracked_objects st)" by simp
  then obtain t0 where m0: "map_of (tracked_objects st) ?k = Some t0"
    using map_of_present by fastforce
  from update_track_step[OF Cons.prems(1) m0, of "snd a" fn] obtain sm tm where
    um: "update_track st ?k (snd a) fn = Inr sm"
    and tm: "tracked_objects sm = dict_set ?k tm (tracked_objects st)"
    and tch: "touched fn t0 tm"
    and Jm: "total_crossings sm - crossed_in (tracked_objects sm)
         = total_crossings st - crossed_in (tracked_objects st)"
    and lem: "\<forall>c. crossing_counts st c \<le> crossing_counts sm c"
    and cfm: "same_config st sm" and nm: "next_track_id sm = next_track_id st"
    and fm: "frame_count sm = frame_count st"
    by blast
  have km: "map fst (tracked_objects sm) = map fst (tracked_objects st)"
    unfolding tm using \<open>?k \<in> fst ` set (tracked_objects st)\<close> by (rule dict_set_keys_present)
  have mm: "map_of (tracked_objects sm) = (map_of (tracked_objects st))(?k \<mapsto> tm)"
    unfolding tm by (rule map_of_dict_set)
  have dm: "distinct (map fst (tracked_objects sm))" using km Cons.prems(1) by simp
  have "fst ` set (tracked_objects sm) = fst ` set (tracked_objects st)"
    using km by (metis set_map)
  with Cons.prems(2) have sub: "fst ` set assoc \<subseteq> fst ` set (tracked_objects sm)" by auto
  from Cons.IH[OF dm sub] obtain s1 where
    u1: "update_tracks sm assoc fn = Inr s1"
    and k1: "map fst (tracked_objects s1) = map fst (tracked_objects sm)"
    and p1: "\<forall>k t. map_of (tracked_objects sm) k = Some t \<longrightarrow>
           (\<exists>t1. map_of (tracked_objects s1) k = Some t1
              \<and> (if k \<in> fst ` set assoc then touched fn t t1 else t1 = t))"
    and J1: "total_crossings s1 - crossed_in (tracked_objects s1)
         = total_crossings sm - crossed_in (tracked_objects sm)"
    and le1: "\<forall>c. crossing_counts sm c \<le> crossing_counts s1 c"
    and cf1: "same_config sm s1" and n1: "next_track_id s1 = next_track_id sm"
    and f1: "frame_count s1 = frame_count sm"
    by blast
  have pw: "\<forall>k t. map_of (tracked_objects st) k = Some t \<longrightarrow>
           (\<exists>t1. map_of (tracked_objects s1) k = Some t1
              \<and> (if k \<in> fst ` set (a # assoc) then touched fn t t1 else t1 = t))"
  proof (intro allI impI)
    fix k t assume kt: "map_of (tracked_objects st) k = Some t"
    show "\<exists>t1. map_of (tracked_objects s1) k = Some t1
              \<and> (if k \<in> fst ` set (a # assoc) then touched fn t t1 else t1 = t)"
    proof (cases "k = ?k")
      case True
      with kt m0 have tt: "t = t0" by simp
      from mm True have "map_of (tracked_objects sm) k = Some tm" by simp
      with p1 obtain t1 where a1: "map_of (tracked_objects s1) k = Some t1"
        and b1: "if k \<in> fst ` set assoc then touched fn tm t1 else t1 = tm" by blast
      have "touched fn t t1"
        using tch b1 tt touched_trans by (auto split: if_splits)
      with a1 True show ?thesis by auto
    next
      case False
      with mm kt have "map_of (tracked_objects sm) k = Some t" by simp
      with p1 obtain t1 where a1: "map_of (tracked_objects s1) k = Some t1"
        and b1: "if k \<in> fst ` set assoc then touched fn t t1 else t1 = t" by blast
      with False show ?thesis by auto
    qed
  qed
  have le: "\<forall>c. crossing_counts st c \<le> crossing_counts s1 c"
    using lem le1 order_trans by blast
  show ?case
    apply (rule exI[of _ s1])
    using um u1 k1 km pw J1 Jm le same_config_trans[OF cfm cf1] n1 nm f1 fm by simp
qed

lemma create_new_track_step:
  assumes wf: "wf_tracker st"
  shows "\<exists>nt. tracked_objects (create_new_track st d fn) = tracked_objects st @ [(next_track_id st, nt)]
     \<and> \<not> has_crossed_line nt
     \<and> next_track_id (create_new_track st d fn) = next_track_id st + 1
     \<and> wf_tracker (create_new_track st d fn)
     \<and> crossing_counts (create_new_track st d fn) = crossing_counts st
     \<and> frame_count (create_new_track st d fn) = frame_count st
     \<and> same_config st (create_new_track st d fn)"
proof -
  from wf have dk: "distinct (map fst (tracked_objects st))"
    and lt: "\<forall>kt \<in> set (tracked_objects st). fst kt < next_track_id st"
    by (auto simp: wf_tracker_def list_all_iff)
  then have new: "next_track_id st \<notin> fst ` set (tracked_objects st)" by auto
  show ?thesis
    using dk lt new
    by (auto simp: create_new_track_def Let_def dict_set_new[OF new] wf_tracker_def
        list_all_iff same_config_def)
qed

lemma create_fold_props:
  assumes "wf_tracker st"
  shows "\<exists>news. tracked_objects (foldl (\<lambda>s d. create_new_track s d fn) st ds)
         = tracked_objects st @ news
     \<and> list_all (\<lambda>kt. \<not> has_crossed_line (snd kt) \<and> next_track_id st \<le> fst kt) news
     \<and> wf_tracker (foldl (\<lambda>s d. create_new_track s d fn) st ds)
     \<and> crossing_counts (foldl (\<lambda>s d. create_new_track s d fn) st ds) = crossing_counts st
     \<and> frame_count (foldl (\<lambda>s d. create_new_track s d fn) st ds) = frame_count st
     \<and> same_config st (foldl (\<lambda>s d. create_new_track s d fn) st ds)"
  using assms
proof (induction ds arbitrary: st)
  case Nil
  then show ?case by (simp add: same_config_refl)
next
  case (Cons d ds)
  let ?s1 = "create_new_track st d fn"
  from create_new_track_step[OF Cons.prems, of d fn] obtain nt where
    t1: "tracked_objects ?s1 = tracked_objects st @ [(next_track_id st, nt)]"
    and h1: "\<not> has_crossed_line nt"
    and n1: "next_track_id ?s1 = next_track_id st + 1"
    and w1: "wf_tracker ?s1"
    and c1: "crossing_counts ?s1 = crossing_counts st"
    and f1: "frame_count ?s1 = frame_count st"
    and g1: "same_config st ?s1"
    by blast
  from Cons.IH[OF w1] obtain news where
    t2: "tracked_objects (foldl (\<lambda>s d. create_new_track s d fn) ?s1 ds)
         = tracked_objects ?s1 @ news"
    and h2: "list_all (\<lambda>kt. \<not> has_crossed_line (snd kt) \<and> next_track_id ?s1 \<le> fst kt) news"
    and w2: "wf_tracker (foldl (\<lambda>s d. create_new_track s d fn) ?s1 ds)"
    and c2: "crossing_counts (foldl (\<lambda>s d. create_new_track s d fn) ?s1 ds) = crossing_counts ?s1"
    and f2: "frame_count (foldl (\<lambda>s d. create_new_track s d fn) ?s1 ds) = frame_count ?s1"
    and g2: "same_config ?s1 (foldl (\<lambda>s d. create_new_track s d fn) ?s1 ds)"
    by blast
  have h: "list_all (\<lambda>kt. \<not> has_crossed_line (snd kt) \<and> next_track_id st \<le> fst kt)
      ((next_track_id st, nt) # news)"
    using h1 h2 n1 by (auto simp: list_all_iff)
  show ?case
    apply (rule exI[of _ "(next_track_id st, nt) # news"])
    using t1 t2 h w2 c1 c2 f1 f2 same_config_trans[OF g1 g2] by simp
qed

lemma lost_track_fields:
  "has_crossed_line (lost_track st t) = has_crossed_line t"
  "last_seen_frame (lost_track st t) = last_seen_frame t"
  "frames_lost (lost_track st t) = frames_lost t + 1"
  "is_active (lost_track st t) = (is_active t \<and> frames_lost t + 1 < max_frames_lost st)"
  by (auto simp: lost_track_def Let_def)

lemma lost_track_cong: "same_config st st' \<Longrightarrow> lost_track st' t = lost_track st t"
  by (simp add: lost_track_def same_config_def get_exit_point_def get_entry_point_def Let_def)

lemma handle_lost_track_step:
  assumes dk: "distinct (map fst (tracked_objects st))"
    and m: "map_of (tracked_objects st) k = Some t"
  shows "tracked_objects (handle_lost_track st k fn) = dict_set k (lost_track st t) (tracked_objects st)
     \<and> crossing_counts (handle_lost_track st k fn) = crossing_counts st
     \<and> frame_count (handle_lost_track st k fn) = frame_count st
     \<and> next_track_id (handle_lost_track st k fn) = next_track_id st
     \<and> same_config st (handle_lost_track st k fn)"
  using m by (simp add: handle_lost_track_def lost_track_def Let_def same_config_def)

lemma handle_lost_track_missing:
  "map_of (tracked_objects st) k = None \<Longrightarrow> handle_lost_track st k fn = st"
  by (simp add: handle_lost_track_def)

lemma lost_fold_props:
  assumes "distinct (map fst (tracked_objects st))" "distinct ks"
  shows "map fst (tracked_objects (foldl (\<lambda>s k. handle_lost_track s k fn) st ks))
       = map fst (tracked_objects st)
     \<and> (\<forall>k t. map_of (tracked_objects st) k = Some t \<longrightarrow>
           map_of (tracked_objects (foldl (\<lambda>s k. handle_lost_track s k fn) st ks)) k
             = Some (if k \<in> set ks then lost_track st t else t))
     \<and> crossed_in (tracked_objects (foldl (\<lambda>s k. handle_lost_track s k fn) st ks))
         = crossed_in (tracked_objects st)
     \<and> crossing_counts (foldl (\<lambda>s k. handle_lost_track s k fn) st ks) = crossing_counts st
     \<and> frame_count (foldl (\<lambda>s k. handle_lost_track s k fn) st ks) = frame_count st
     \<and> next_track_id (foldl (\<lambda>s k. handle_lost_track s k fn) st ks) = next_track_id st
     \<and> same_config st (foldl (\<lambda>s k. handle_lost_track s k fn) st ks)"
  using assms
proof (induction ks arbitrary: st)
  case Nil
  then show ?case by (simp add: same_config_refl)
next
  case (Cons k ks)
  let ?s1 = "handle_lost_track st k fn"
  let ?s2 = "foldl (\<lambda>s k. handle_lost_track s k fn) ?s1 ks"
  have s1: "map fst (tracked_objects ?s1) = map fst (tracked_objects st)
     \<and> (\<forall>k' t. map_of (tracked_objects st) k' = Some t \<longrightarrow>
           map_of (tracked_objects ?s1) k' = Some (if k' = k then lost_track st t else t))
     \<and> crossed_in (tracked_objects ?s1) = crossed_in (tracked_objects st)
     \<and> crossing_counts ?s1 = crossing_counts st
     \<and> frame_count ?s1 = frame_count st
     \<and> next_track_id ?s1 = next_track_id st
     \<and> same_config st ?s1"
  proof (cases "map_of (tracked_objects st) k")
    case None
    then have "?s1 = st" by (rule handle_lost_track_missing)
    then show ?thesis using None by (auto simp: same_config_refl)
  next
    case (Some t)
    note st = handle_lost_track_step[OF Cons.prems(1) Some, of fn]
    have kin: "k \<in> fst ` set (tracked_objects st)" using Some by (rule map_of_keys)
    have "crossed_in (dict_set k (lost_track st t) (tracked_objects st)) =
       crossed_in (tracked_objects st) - (if has_crossed_line t then 1 else 0)
       + (if has_crossed_line (lost_track st t) then 1 else 0)"
      by (rule crossed_in_dict_set[OF Cons.prems(1) Some])
    then have ci: "crossed_in (dict_set k (lost_track st t) (tracked_objects st))
        = crossed_in (tracked_objects st)"
      by (simp add: lost_track_fields)
    show ?thesis
      using st Some ci by (simp add: dict_set_keys_present[OF kin] map_of_dict_set)
  qed
  then have d1: "distinct (map fst (tracked_objects ?s1))" using Cons.prems(1) by simp
  from Cons.prems(2) have dks: "distinct ks" and kn: "k \<notin> set ks" by auto
  note ih = Cons.IH[OF d1 dks]
  have cfg: "same_config st ?s1" using s1 by simp
  have pw: "\<forall>k' t. map_of (tracked_objects st) k' = Some t \<longrightarrow>
           map_of (tracked_objects ?s2) k' = Some (if k' \<in> set (k # ks) then lost_track st t else t)"
  proof (intro allI impI)
    fix k' t assume a: "map_of (tracked_objects st) k' = Some t"
    with s1 have b: "map_of (tracked_objects ?s1) k' = Some (if k' = k then lost_track st t else t)"
      by blast
    with ih have c: "map_of (tracked_objects ?s2) k'
        = Some (if k' \<in> set ks then lost_track ?s1 (if k' = k then lost_track st t else t)
                else (if k' = k then lost_track st t else t))"
      by blast
    show "map_of (tracked_objects ?s2) k' = Some (if k' \<in> set (k # ks) then lost_track st t else t)"
      unfolding c using kn lost_track_cong[OF cfg] by auto
  qed
  show ?case
    using s1 ih pw same_config_trans[OF cfg] by simp
qed

lemma foldl_dict_del: "foldl (\<lambda>d k. dict_del k d) tbl ks = filter (\<lambda>p. fst p \<notin> set ks) tbl"
proof (induction ks arbitrary: tbl)
  case Nil
  then show ?case by simp
next
  case (Cons k ks)
  show ?case
    unfolding foldl_Cons Cons.IH by (auto simp: dict_del_def intro: filter_cong)
qed

lemma cleanup_filter:
  assumes dk: "distinct (map fst (tracked_objects st))"
  shows "tracked_objects (cleanup_inactive_tracks st)
     = filter (\<lambda>kt. \<not> purgeable (frame_count st) kt) (tracked_objects st)"
proof -
  let ?R = "\<lambda>kt. \<not> is_active (snd kt) \<and> frame_count st - last_seen_frame (snd kt) > 100"
  have "tracked_objects (cleanup_inactive_tracks st)
      = filter (\<lambda>p. fst p \<notin> set (map fst (filter ?R (tracked_objects st)))) (tracked_objects st)"
    by (simp add: cleanup_inactive_tracks_def Let_def foldl_dict_del)
  also have "\<dots> = filter (\<lambda>kt. \<not> purgeable (frame_count st) kt) (tracked_objects st)"
  proof (rule filter_cong[OF refl])
    fix p assume p: "p \<in> set (tracked_objects st)"
    have "fst p \<in> set (map fst (filter ?R (tracked_objects st))) \<longleftrightarrow> ?R p"
    proof
      assume "fst p \<in> set (map fst (filter ?R (tracked_objects st)))"
      then obtain q where q: "q \<in> set (tracked_objects st)" "?R q" "fst q = fst p" by auto
      with p dk have "q = p"
        by (metis distinct_map inj_on_eq_iff)
      with q show "?R p" by simp
    next
      assume "?R p"
      with p show "fst p \<in> set (map fst (filter ?R (tracked_objects st)))" by auto
    qed
    then show "(fst p \<notin> set (map fst (filter ?R (tracked_objects st))))
        = (\<not> purgeable (frame_count st) p)"
      by (simp add: purgeable_def)
  qed
  finally show ?thesis .
qed

lemma map_of_filter_distinct:
  "distinct (map fst tbl) \<Longrightarrow>
   map_of (filter P tbl) k =
     (case map_of tbl k of None \<Rightarrow> None | Some v \<Rightarrow> if P (k, v) then Some v else None)"
proof (induction tbl)
  case Nil
  then show ?case by simp
next
  case (Cons p tbl)
  obtain a b where p: "p = (a, b)" by (cases p)
  from Cons.prems have na: "a \<notin> fst ` set tbl" and dt: "distinct (map fst tbl)"
    using p by auto
  from na have nn: "map_of tbl a = None" by (simp add: map_of_eq_None_iff)
  show ?case
    using Cons.IH[OF dt] p nn by (auto split: option.splits)
qed

lemma map_of_append_left:
  "map_of xs k = Some v \<Longrightarrow> map_of (xs @ ys) k = Some v"
  by (simp add: map_add_Some_iff)

lemma map_of_append_right:
  assumes "k \<notin> fst ` set xs"
  shows "map_of (xs @ ys) k = map_of ys k"
proof -
  from assms have "map_of xs k = None" by (simp add: map_of_eq_None_iff)
  then show ?thesis by (simp add: map_add_def)
qed

lemma wf_tracker_alt:
  "wf_tracker st \<longleftrightarrow>
     distinct (map fst (tracked_objects st))
     \<and> (\<forall>k \<in> set (map fst (tracked_objects st)). k < next_track_id st)"
  by (auto simp: wf_tracker_def list_all_iff)

lemma wf_tracker_same_keys:
  assumes "wf_tracker s" "map fst (tracked_objects s') = map fst (tracked_objects s)"
    "next_track_id s' = next_track_id s"
  shows "wf_tracker s'"
  using assms unfolding wf_tracker_alt by simp

text \<open>
  The structure of one \<^verbatim>\<open>update\<close> call on a well-formed tracker: the state \<open>st3\<close> before
  the cleanup, entry by entry, and the cleanup as a filter.
\<close>

lemma update_structure:
  assumes wf: "wf_tracker st"
  shows "\<exists>out st' st3 (news :: (int \<times> tracked_object) list).
     update st dets fn = Inr (out, st')
     \<and> tracked_objects st' = filter (\<lambda>kt. \<not> purgeable fn kt) (tracked_objects st3)
     \<and> crossing_counts st' = crossing_counts st3
     \<and> wf_tracker st3 \<and> next_track_id st' = next_track_id st3
     \<and> map fst (tracked_objects st3) = map fst (tracked_objects st) @ map fst news
     \<and> list_all (\<lambda>kt. next_track_id st \<le> fst kt) news
     \<and> (\<forall>k t3. map_of (tracked_objects st3) k = Some t3 \<longrightarrow>
            k \<notin> fst ` set (tracked_objects st) \<longrightarrow> \<not> has_crossed_line t3)
     \<and> (\<forall>k t. map_of (tracked_objects st) k = Some t \<longrightarrow>
           (\<exists>t3. map_of (tracked_objects st3) k = Some t3
              \<and> (if k \<in> fst ` set (fst (associate_detections (st\<lparr>frame_count := fn\<rparr>) dets))
                  then is_active t \<and> touched fn t t3
                  else if is_active t then t3 = lost_track st t
                  else t3 = t)))
     \<and> total_crossings st3 - crossed_in (tracked_objects st3)
         = total_crossings st - crossed_in (tracked_objects st)
     \<and> (\<forall>c. crossing_counts st c \<le> crossing_counts st3 c)"
proof -
  let ?st0 = "st\<lparr>frame_count := fn\<rparr>"
  let ?r = "associate_detections ?st0 dets"
  let ?assoc = "fst ?r"
  let ?ud = "fst (snd ?r)"
  let ?ut = "snd (snd ?r)"
  let ?act = "map fst (filter (\<lambda>kt. is_active (snd kt)) (tracked_objects st))"
  from wf have dk: "distinct (map fst (tracked_objects st))"
    and lt: "list_all (\<lambda>kt. fst kt < next_track_id st) (tracked_objects st)"
    by (simp_all add: wf_tracker_def)
  have dk0: "distinct (map fst (tracked_objects ?st0))" using dk by simp
  note af = associate_facts[OF dk0, of dets]
  have act_in: "\<forall>a \<in> set ?assoc. \<exists>t. map_of (tracked_objects st) (fst a) = Some t \<and> is_active t"
    using af(3) by fastforce
  have ut: "?ut = filter (\<lambda>k. k \<notin> fst ` set ?assoc) ?act"
    using af(4) by simp
  have dact: "distinct ?act" using dk by (simp add: distinct_map_filter)
  have dut: "distinct ?ut" unfolding ut using dact by simp
  have sub: "fst ` set ?assoc \<subseteq> fst ` set (tracked_objects ?st0)"
    by (rule associate_keys)
  from update_tracks_props[OF dk0 sub, of fn] obtain st1 where
    u1: "update_tracks ?st0 ?assoc fn = Inr st1"
    and k1: "map fst (tracked_objects st1) = map fst (tracked_objects ?st0)"
    and p1: "\<forall>k t. map_of (tracked_objects ?st0) k = Some t \<longrightarrow>
           (\<exists>t1. map_of (tracked_objects st1) k = Some t1
              \<and> (if k \<in> fst ` set ?assoc then touched fn t t1 else t1 = t))"
    and J1: "total_crossings st1 - crossed_in (tracked_objects st1)
         = total_crossings ?st0 - crossed_in (tracked_objects ?st0)"
    and le1: "\<forall>c. crossing_counts ?st0 c \<le> crossing_counts st1 c"
    and cf1: "same_config ?st0 st1" and n1: "next_track_id st1 = next_track_id ?st0"
    and f1: "frame_count st1 = frame_count ?st0"
    by (elim exE conjE)
  have k1': "map fst (tracked_objects st1) = map fst (tracked_objects st)"
    using k1 by simp
  have key_lt: "\<And>k. k \<in> fst ` set (tracked_objects st) \<Longrightarrow> k < next_track_id st"
    using lt by (auto simp: list_all_iff)
  have keys1: "fst ` set (tracked_objects st1) = fst ` set (tracked_objects st)"
    using k1' by (metis set_map)
  have w0: "wf_tracker ?st0" using wf by (simp add: wf_tracker_def)
  have w1: "wf_tracker st1"
    by (rule wf_tracker_same_keys[OF w0 k1 n1])
  let ?st2 = "foldl (\<lambda>s d. create_new_track s d fn) st1 ?ud"
  from create_fold_props[OF w1, of fn ?ud] obtain news where
    t2: "tracked_objects ?st2 = tracked_objects st1 @ news"
    and h2: "list_all (\<lambda>kt. \<not> has_crossed_line (snd kt) \<and> next_track_id st1 \<le> fst kt) news"
    and w2: "wf_tracker ?st2"
    and c2: "crossing_counts ?st2 = crossing_counts st1"
    and f2: "frame_count ?st2 = frame_count st1"
    and g2: "same_config st1 ?st2"
    by (elim exE conjE)
  from w2 have d2: "distinct (map fst (tracked_objects ?st2))" by (simp add: wf_tracker_def)
  let ?st3 = "foldl (\<lambda>s k. handle_lost_track s k fn) ?st2 ?ut"
  note l3 = lost_fold_props[OF d2 dut, of fn]
  note k3 = l3[THEN conjunct1]
  note p3 = l3[THEN conjunct2, THEN conjunct1]
  note ci3 = l3[THEN conjunct2, THEN conjunct2, THEN conjunct1]
  note c3 = l3[THEN conjunct2, THEN conjunct2, THEN conjunct2, THEN conjunct1]
  note f3 = l3[THEN conjunct2, THEN conjunct2, THEN conjunct2, THEN conjunct2, THEN conjunct1]
  note n3 = l3[THEN conjunct2, THEN conjunct2, THEN conjunct2, THEN conjunct2, THEN conjunct2,
      THEN conjunct1]
  note g3 = l3[THEN conjunct2, THEN conjunct2, THEN conjunct2, THEN conjunct2, THEN conjunct2,
      THEN conjunct2]
  have w3: "wf_tracker ?st3"
    by (rule wf_tracker_same_keys[OF w2 k3 n3])
  then have d3: "distinct (map fst (tracked_objects ?st3))" by (simp add: wf_tracker_def)
  let ?st' = "cleanup_inactive_tracks ?st3"
  have fc3: "frame_count ?st3 = fn" using f3 f2 f1 by simp
  have tb': "tracked_objects ?st' = filter (\<lambda>kt. \<not> purgeable fn kt) (tracked_objects ?st3)"
    using cleanup_filter[OF d3] fc3 by simp
  have upd: "update st dets fn =
      Inr (map snd (filter (\<lambda>kt. is_active (snd kt)) (tracked_objects ?st')), ?st')"
    by (simp add: update_def Let_def u1)
  have cc': "crossing_counts ?st' = crossing_counts ?st3"
    and nn': "next_track_id ?st' = next_track_id ?st3"
    by (simp_all add: cleanup_inactive_tracks_def Let_def)
  have keys3: "map fst (tracked_objects ?st3) = map fst (tracked_objects st) @ map fst news"
    using k3 t2 k1' by simp
  have news_ge: "list_all (\<lambda>kt. next_track_id st \<le> fst kt) news"
    using h2 n1 by (simp add: list_all_iff)
  have cfg02: "same_config ?st0 ?st2" by (rule same_config_trans[OF cf1 g2])
  have cfg: "same_config st ?st2" using cfg02 by (simp add: same_config_def)
  have newflag: "\<forall>k t3. map_of (tracked_objects ?st3) k = Some t3 \<longrightarrow>
            k \<notin> fst ` set (tracked_objects st) \<longrightarrow> \<not> has_crossed_line t3"
  proof (intro allI impI)
    fix k t3 assume m3: "map_of (tracked_objects ?st3) k = Some t3"
      and nk: "k \<notin> fst ` set (tracked_objects st)"
    from m3 have "k \<in> fst ` set (tracked_objects ?st3)" by (rule map_of_keys)
    then have "k \<in> set (map fst (tracked_objects ?st2))" using k3 by (metis set_map)
    then obtain t2' where m2: "map_of (tracked_objects ?st2) k = Some t2'"
      using map_of_present[of k "tracked_objects ?st2"] by auto
    from nk keys1 have "k \<notin> fst ` set (tracked_objects st1)" by simp
    then have "map_of (tracked_objects ?st2) k = map_of news k"
      unfolding t2 by (rule map_of_append_right)
    with m2 have "(k, t2') \<in> set news" by (simp add: map_of_SomeD)
    with h2 have nf: "\<not> has_crossed_line t2'" by (auto simp: list_all_iff)
    from p3 m2 have "map_of (tracked_objects ?st3) k
        = Some (if k \<in> set ?ut then lost_track ?st2 t2' else t2')" by blast
    with m3 have "t3 = (if k \<in> set ?ut then lost_track ?st2 t2' else t2')" by simp
    with nf show "\<not> has_crossed_line t3" by (simp add: lost_track_fields)
  qed
  have pw: "\<forall>k t. map_of (tracked_objects st) k = Some t \<longrightarrow>
           (\<exists>t3. map_of (tracked_objects ?st3) k = Some t3
              \<and> (if k \<in> fst ` set ?assoc then is_active t \<and> touched fn t t3
                  else if is_active t then t3 = lost_track st t
                  else t3 = t))"
  proof (intro allI impI)
    fix k t assume m: "map_of (tracked_objects st) k = Some t"
    then have m0: "map_of (tracked_objects ?st0) k = Some t" by simp
    with p1 obtain t1 where m1: "map_of (tracked_objects st1) k = Some t1"
      and r1: "if k \<in> fst ` set ?assoc then touched fn t t1 else t1 = t" by blast
    from m1 have m2: "map_of (tracked_objects ?st2) k = Some t1"
      unfolding t2 by (rule map_of_append_left)
    with p3 have m3: "map_of (tracked_objects ?st3) k
        = Some (if k \<in> set ?ut then lost_track ?st2 t1 else t1)" by blast
    have kt: "(k, t) \<in> set (tracked_objects st)" using m by (rule map_of_SomeD)
    have inact: "k \<in> set ?act \<longleftrightarrow> is_active t"
    proof
      assume "k \<in> set ?act"
      then obtain t' where "(k, t') \<in> set (tracked_objects st)" "is_active t'" by auto
      with kt dk show "is_active t" by (metis eq_key_imp_eq_value)
    next
      assume "is_active t"
      with kt show "k \<in> set ?act" by force
    qed
    have inut: "k \<in> set ?ut \<longleftrightarrow> k \<notin> fst ` set ?assoc \<and> is_active t"
      unfolding ut using inact by auto
    show "\<exists>t3. map_of (tracked_objects ?st3) k = Some t3
              \<and> (if k \<in> fst ` set ?assoc then is_active t \<and> touched fn t t3
                  else if is_active t then t3 = lost_track st t
                  else t3 = t)"
    proof (cases "k \<in> fst ` set ?assoc")
      case True
      then obtain a where a: "a \<in> set ?assoc" "fst a = k" by auto
      with act_in obtain t' where "map_of (tracked_objects st) k = Some t'" "is_active t'"
        by blast
      with m have "is_active t" by simp
      with True m3 r1 inut show ?thesis by simp
    next
      case False
      with r1 have "t1 = t" by simp
      with False m3 inut lost_track_cong[OF cfg] show ?thesis by simp
    qed
  qed
  have J3: "total_crossings ?st3 - crossed_in (tracked_objects ?st3)
         = total_crossings st - crossed_in (tracked_objects st)"
  proof -
    have "crossed_in news = 0"
      using h2 by (induction news) (auto simp: crossed_in_def)
    then have "crossed_in (tracked_objects ?st2) = crossed_in (tracked_objects st1)"
      unfolding t2 by (simp add: crossed_in_append)
    moreover have "total_crossings ?st3 = total_crossings st1"
      using c3 c2 by (simp add: total_crossings_def)
    moreover have "total_crossings ?st0 = total_crossings st"
      by (simp add: total_crossings_def)
    ultimately show ?thesis using J1 ci3 by simp
  qed
  have le3: "\<forall>c. crossing_counts st c \<le> crossing_counts ?st3 c"
    using le1 c3 c2 by simp
  note all = conjI[OF upd conjI[OF tb' conjI[OF cc' conjI[OF w3 conjI[OF nn' conjI[OF keys3
      conjI[OF news_ge conjI[OF newflag conjI[OF pw conjI[OF J3 le3]]]]]]]]]]
  show ?thesis
    by (intro exI) (rule all)
qed

subsection \<open>Auxiliary facts for the claims on update\<close>

lemma wf_tracker_init: "wf_tracker (tracker_init config)"
  by (simp add: wf_tracker_def tracker_init_def Let_def)

lemma wf_tracker_filter:
  assumes "wf_tracker s3" "tracked_objects s' = filter P (tracked_objects s3)"
    "next_track_id s' = next_track_id s3"
  shows "wf_tracker s'"
  using assms by (auto simp: wf_tracker_def list_all_iff distinct_map_filter)

lemma map_of_purged:
  assumes "distinct (map fst tbl)" "map_of tbl k = Some t"
  shows "map_of (filter (\<lambda>kt. \<not> purgeable fn kt) tbl) k
     = (if \<not> is_active t \<and> fn - last_seen_frame t > 100 then None else Some t)"
  using assms by (simp add: map_of_filter_distinct purgeable_def)

lemma map_of_purged_None:
  assumes "distinct (map fst tbl)" "map_of tbl k = None"
  shows "map_of (filter (\<lambda>kt. \<not> purgeable fn kt) tbl) k = None"
  using assms by (simp add: map_of_filter_distinct)

lemma crossed_in_keys_tbl:
  "distinct (map fst tbl) \<Longrightarrow>
   crossed_in tbl =
     int (length (filter (\<lambda>k. case map_of tbl k of None \<Rightarrow> False
                              | Some t \<Rightarrow> has_crossed_line t) (map fst tbl)))"
proof (induction tbl)
  case Nil
  then show ?case by (simp add: crossed_in_def)
next
  case (Cons p tbl)
  obtain a b where p: "p = (a, b)" by (cases p)
  from Cons.prems p have na: "a \<notin> set (map fst tbl)" and dt: "distinct (map fst tbl)" by auto
  have "filter (\<lambda>k. case map_of (p # tbl) k of None \<Rightarrow> False | Some t \<Rightarrow> has_crossed_line t)
          (map fst tbl)
      = filter (\<lambda>k. case map_of tbl k of None \<Rightarrow> False | Some t \<Rightarrow> has_crossed_line t)
          (map fst tbl)"
    using na p by (intro filter_cong) auto
  then show ?case
    using Cons.IH[OF dt] p by (simp add: crossed_in_Cons)
qed

lemma crossed_in_keys:
  "distinct (map fst (tracked_objects s)) \<Longrightarrow>
   crossed_in (tracked_objects s) = int (length (filter (crossed s) (map fst (tracked_objects s))))"
  using crossed_in_keys_tbl[of "tracked_objects s"] by (simp add: crossed_def[abs_def])

lemma filter_split_mono:
  "\<forall>x \<in> set xs. P x \<longrightarrow> Q x \<Longrightarrow>
   length (filter Q xs) = length (filter P xs) + length (filter (\<lambda>x. Q x \<and> \<not> P x) xs)"
  by (induction xs) auto

lemma filter_none: "\<forall>x \<in> set xs. \<not> P x \<Longrightarrow> filter P xs = []"
  by (induction xs) auto

lemma sqrt_400: "sqrt 400 = 20"
proof -
  have "sqrt (20\<^sup>2) = \<bar>20\<bar>" by (rule real_sqrt_abs)
  then show ?thesis by simp
qed

lemma one_car_state_reached:
  "update (tracker_init default_config) [det_at 100 100] 1 = Inr ([one_car_track], one_car_state)"
  by (simp add: tracker_eval get_entry_point_def one_car_state_def one_car_track_def
      tracker_init_def default_config_def det_at_def)

lemma west_car_state_reached:
  "update (tracker_init line_config) [det_at 90 50] 1 = Inr ([west_car_track], west_car_state)"
  by (simp add: tracker_eval get_entry_point_def west_car_state_def west_car_track_def
      tracker_init_def line_config_def default_config_def det_at_def)

lemma west_car_crosses:
  "\<exists>out st' out2 st2. update west_car_state [det_at 110 50] 2 = Inr (out, st')
     \<and> crossing_counts st' East = 1 \<and> total_crossings st' = 1
     \<and> total_crossings west_car_state = 0
     \<and> map (\<lambda>kt. has_crossed_line (snd kt)) (tracked_objects st') = [True]
     \<and> update st' [det_at 90 50] 3 = Inr (out2, st2)
     \<and> map (\<lambda>kt. t_center (snd kt)) (tracked_objects st2) = [(90, 50)]
     \<and> total_crossings st2 = 1"
  by (simp add: tracker_eval get_entry_point_def west_car_state_def west_car_track_def
      tracker_init_def line_config_def default_config_def det_at_def sqrt_400
      total_crossings_def count_sum_def py_atan2_def py_degrees_def)

lemma scenario_inactive_unmatched:
  "\<exists>s out s'.
     run_updates (tracker_init default_config) (present3 (det_at 100 100) @ absent 4 10) = Inr s
     \<and> update s [] 14 = Inr (out, s')
     \<and> fst (associate_detections (s\<lparr>frame_count := 14\<rparr>) []) = []
     \<and> map (\<lambda>kt. (fst kt, is_active (snd kt), frames_lost (snd kt))) (tracked_objects s)
         = [(1, False, 10)]
     \<and> map (\<lambda>kt. (fst kt, is_active (snd kt), frames_lost (snd kt))) (tracked_objects s')
         = [(1, False, 10)]"
proof -
  from present3_run[of "det_at 100 100"] obtain s t where
    r: "run_updates (tracker_init default_config) (present3 (det_at 100 100)) = Inr s"
    and p: "tracked_objects s = [(1, t)]" "is_active t" "frames_lost t = 0"
      "frames_tracked t = 3" "last_seen_frame t = 3"
      "max_frames_lost s = 10" "min_track_length s = 5" "total_tracks_completed s = 0"
    by blast
  have ls: "4 + 10 - last_seen_frame t \<le> 100" using p by simp
  let ?t10 = "t\<lparr>frames_lost := 10, is_active := False,
                exit_point := Some (get_exit_point (s\<lparr>frame_count := 4 + 9\<rparr>) (t_center t))\<rparr>"
  let ?s1 = "s\<lparr>frame_count := 4 + 9, tracked_objects := [(1, ?t10)],
                  total_tracks_completed :=
                    (if frames_tracked t \<ge> min_track_length s then total_tracks_completed s + 1
                     else total_tracks_completed s)\<rparr>"
  have r1: "run_updates (tracker_init default_config) (present3 (det_at 100 100) @ absent 4 10)
      = Inr ?s1"
    by (rule run_updates_then[OF r lone_track_lost(2)[OF p(1) p(2) p(3) p(6) ls]])
  have "update ?s1 [] 14 =
     Inr ([], ?s1\<lparr>frame_count := 14,
             tracked_objects := (if 14 - last_seen_frame ?t10 > 100 then [] else [(1, ?t10)])\<rparr>)"
    by (intro update_absent_inactive) auto
  then have u: "update ?s1 [] 14 = Inr ([], ?s1\<lparr>frame_count := 14, tracked_objects := [(1, ?t10)]\<rparr>)"
    using p by simp
  have a: "fst (associate_detections (?s1\<lparr>frame_count := 14\<rparr>) []) = []"
    by (simp add: associate_detections_def)
  show ?thesis
    apply (rule exI[of _ ?s1], rule exI[of _ "[]"],
        rule exI[of _ "?s1\<lparr>frame_count := 14, tracked_objects := [(1, ?t10)]\<rparr>"])
    using r1 u a by simp
qed

subsection \<open>Claim C8\<close>

text \<open>
  Claim C8, as amended. On a well-formed tracker (which \<^verbatim>\<open>update\<close> keeps well-formed), for
  every track \<open>t\<close> stored under \<open>k\<close> and every \<^verbatim>\<open>update\<close> call: if the track is associated to
  a detection it is active, it is in the table after the call and its \<^verbatim>\<open>frames_lost\<close> is
  0; if it is active and unmatched, its \<^verbatim>\<open>frames_lost\<close> after the call is the old value
  plus 1 (it is still in the table unless it has just become inactive and was last seen
  more than 100 frames before); if it is inactive it is never matched and the call
  leaves it unchanged, so its \<^verbatim>\<open>frames_lost\<close> does not move.
\<close>

theorem frames_lost_after_update:
  assumes wf: "wf_tracker st" and m: "map_of (tracked_objects st) k = Some t"
  shows "\<exists>out st'. update st dets fn = Inr (out, st') \<and> wf_tracker st'
     \<and> (k \<in> fst ` set (fst (associate_detections (st\<lparr>frame_count := fn\<rparr>) dets)) \<longrightarrow>
          is_active t
          \<and> (\<exists>t'. map_of (tracked_objects st') k = Some t' \<and> frames_lost t' = 0))
     \<and> (k \<notin> fst ` set (fst (associate_detections (st\<lparr>frame_count := fn\<rparr>) dets))
          \<and> is_active t \<longrightarrow>
          (\<forall>t'. map_of (tracked_objects st') k = Some t' \<longrightarrow> frames_lost t' = frames_lost t + 1)
          \<and> (frames_lost t + 1 < max_frames_lost st \<or> fn - last_seen_frame t \<le> 100 \<longrightarrow>
               (\<exists>t'. map_of (tracked_objects st') k = Some t')))
     \<and> (\<not> is_active t \<longrightarrow>
          k \<notin> fst ` set (fst (associate_detections (st\<lparr>frame_count := fn\<rparr>) dets))
          \<and> (\<forall>t'. map_of (tracked_objects st') k = Some t' \<longrightarrow> t' = t))"
proof -
  let ?M = "fst ` set (fst (associate_detections (st\<lparr>frame_count := fn\<rparr>) dets))"
  from update_structure[OF wf, of dets fn] obtain out st' st3
    and news :: "(int \<times> tracked_object) list" where
    upd: "update st dets fn = Inr (out, st')"
    and tb': "tracked_objects st' = filter (\<lambda>kt. \<not> purgeable fn kt) (tracked_objects st3)"
    and w3: "wf_tracker st3" and nn': "next_track_id st' = next_track_id st3"
    and pw: "\<forall>k t. map_of (tracked_objects st) k = Some t \<longrightarrow>
           (\<exists>t3. map_of (tracked_objects st3) k = Some t3
              \<and> (if k \<in> ?M then is_active t \<and> touched fn t t3
                  else if is_active t then t3 = lost_track st t
                  else t3 = t))"
    by (elim exE conjE)
  from w3 have d3: "distinct (map fst (tracked_objects st3))" by (simp add: wf_tracker_def)
  have w': "wf_tracker st'" by (rule wf_tracker_filter[OF w3 tb' nn'])
  from pw m obtain t3 where m3: "map_of (tracked_objects st3) k = Some t3"
    and r3: "if k \<in> ?M then is_active t \<and> touched fn t t3
                  else if is_active t then t3 = lost_track st t
                  else t3 = t" by blast
  have m': "map_of (tracked_objects st') k
     = (if \<not> is_active t3 \<and> fn - last_seen_frame t3 > 100 then None else Some t3)"
    unfolding tb' by (rule map_of_purged[OF d3 m3])
  have A: "k \<in> ?M \<longrightarrow> is_active t
          \<and> (\<exists>t'. map_of (tracked_objects st') k = Some t' \<and> frames_lost t' = 0)"
  proof
    assume km: "k \<in> ?M"
    with r3 have act: "is_active t" and tch: "touched fn t t3" by simp_all
    from tch act have "is_active t3" "frames_lost t3 = 0" by (simp_all add: touched_def)
    with m' act show "is_active t
          \<and> (\<exists>t'. map_of (tracked_objects st') k = Some t' \<and> frames_lost t' = 0)" by simp
  qed
  have B: "k \<notin> ?M \<and> is_active t \<longrightarrow>
          (\<forall>t'. map_of (tracked_objects st') k = Some t' \<longrightarrow> frames_lost t' = frames_lost t + 1)
          \<and> (frames_lost t + 1 < max_frames_lost st \<or> fn - last_seen_frame t \<le> 100 \<longrightarrow>
               (\<exists>t'. map_of (tracked_objects st') k = Some t'))"
  proof
    assume "k \<notin> ?M \<and> is_active t"
    with r3 have e: "t3 = lost_track st t" and act: "is_active t" by simp_all
    have f: "frames_lost t3 = frames_lost t + 1" "last_seen_frame t3 = last_seen_frame t"
      "is_active t3 = (frames_lost t + 1 < max_frames_lost st)"
      unfolding e using act by (simp_all add: lost_track_fields)
    show "(\<forall>t'. map_of (tracked_objects st') k = Some t' \<longrightarrow> frames_lost t' = frames_lost t + 1)
          \<and> (frames_lost t + 1 < max_frames_lost st \<or> fn - last_seen_frame t \<le> 100 \<longrightarrow>
               (\<exists>t'. map_of (tracked_objects st') k = Some t'))"
      unfolding m' using f by auto
  qed
  have C: "\<not> is_active t \<longrightarrow> k \<notin> ?M
          \<and> (\<forall>t'. map_of (tracked_objects st') k = Some t' \<longrightarrow> t' = t)"
  proof
    assume na: "\<not> is_active t"
    with r3 have nk: "k \<notin> ?M" by (cases "k \<in> ?M") simp_all
    with r3 na have "t3 = t" by simp
    with nk show "k \<notin> ?M
          \<and> (\<forall>t'. map_of (tracked_objects st') k = Some t' \<longrightarrow> t' = t)"
      unfolding m' by simp
  qed
  note all = conjI[OF upd conjI[OF w' conjI[OF A conjI[OF B C]]]]
  show ?thesis by (intro exI) (rule all)
qed

theorem frames_lost_after_update_witness:
  "wf_tracker one_car_state
   \<and> map_of (tracked_objects one_car_state) 1 = Some one_car_track
   \<and> 1 \<in> fst ` set (fst (associate_detections (one_car_state\<lparr>frame_count := 2\<rparr>)
                            [det_at 100 100]))
   \<and> (\<exists>out st'. update one_car_state [det_at 100 100] 2 = Inr (out, st')
         \<and> (\<exists>t'. map_of (tracked_objects st') 1 = Some t' \<and> frames_lost t' = 0))
   \<and> 1 \<notin> fst ` set (fst (associate_detections (one_car_state\<lparr>frame_count := 2\<rparr>) []))
   \<and> is_active one_car_track
   \<and> (\<exists>out st'. update one_car_state [] 2 = Inr (out, st')
         \<and> (\<exists>t'. map_of (tracked_objects st') 1 = Some t' \<and> frames_lost t' = 1))"
proof -
  have w: "wf_tracker one_car_state"
    by (simp add: wf_tracker_def one_car_state_def)
  have m: "map_of (tracked_objects one_car_state) 1 = Some one_car_track"
    by (simp add: one_car_state_def)
  have a1: "fst (associate_detections (one_car_state\<lparr>frame_count := 2\<rparr>) [det_at 100 100])
      = [(1, det_at 100 100)]"
    by (simp add: tracker_eval one_car_state_def one_car_track_def tracker_init_def
        default_config_def det_at_def)
  have mem: "1 \<in> fst ` set (fst (associate_detections (one_car_state\<lparr>frame_count := 2\<rparr>)
                            [det_at 100 100]))"
    unfolding a1 by simp
  have a2: "fst (associate_detections (one_car_state\<lparr>frame_count := 2\<rparr>) []) = []"
    by (simp add: tracker_eval one_car_state_def one_car_track_def tracker_init_def
        default_config_def)
  have nmem: "1 \<notin> fst ` set (fst (associate_detections (one_car_state\<lparr>frame_count := 2\<rparr>) []))"
    unfolding a2 by simp
  have act: "is_active one_car_track" by (simp add: one_car_track_def)
  have fl: "frames_lost one_car_track = 0" by (simp add: one_car_track_def)
  have small: "frames_lost one_car_track + 1 < max_frames_lost one_car_state"
    by (simp add: one_car_track_def one_car_state_def tracker_init_def Let_def)
  from frames_lost_after_update[OF w m, of "[det_at 100 100]" 2] obtain out st' where
    u: "update one_car_state [det_at 100 100] 2 = Inr (out, st')"
    and A: "1 \<in> fst ` set (fst (associate_detections (one_car_state\<lparr>frame_count := 2\<rparr>)
                            [det_at 100 100])) \<longrightarrow>
          is_active one_car_track
          \<and> (\<exists>t'. map_of (tracked_objects st') 1 = Some t' \<and> frames_lost t' = 0)"
    by (elim exE conjE)
  from mp[OF A mem] have "\<exists>t'. map_of (tracked_objects st') 1 = Some t' \<and> frames_lost t' = 0"
    by (rule conjunct2)
  note P = this
  have E1: "\<exists>out st'. update one_car_state [det_at 100 100] 2 = Inr (out, st')
         \<and> (\<exists>t'. map_of (tracked_objects st') 1 = Some t' \<and> frames_lost t' = 0)"
    by (rule exI, rule exI, rule conjI[OF u P])
  from frames_lost_after_update[OF w m, of "[]" 2] obtain out2 st2 where
    u2: "update one_car_state [] 2 = Inr (out2, st2)"
    and B: "1 \<notin> fst ` set (fst (associate_detections (one_car_state\<lparr>frame_count := 2\<rparr>) []))
          \<and> is_active one_car_track \<longrightarrow>
          (\<forall>t'. map_of (tracked_objects st2) 1 = Some t' \<longrightarrow>
                frames_lost t' = frames_lost one_car_track + 1)
          \<and> (frames_lost one_car_track + 1 < max_frames_lost one_car_state
               \<or> 2 - last_seen_frame one_car_track \<le> 100 \<longrightarrow>
               (\<exists>t'. map_of (tracked_objects st2) 1 = Some t'))"
    by (elim exE conjE)
  from mp[OF B conjI[OF nmem act]]
  have B1: "\<forall>t'. map_of (tracked_objects st2) 1 = Some t' \<longrightarrow>
                frames_lost t' = frames_lost one_car_track + 1"
    and B2: "frames_lost one_car_track + 1 < max_frames_lost one_car_state
               \<or> 2 - last_seen_frame one_car_track \<le> 100 \<longrightarrow>
               (\<exists>t'. map_of (tracked_objects st2) 1 = Some t')"
    by (rule conjunct1, rule conjunct2)
  from mp[OF B2 disjI1[OF small]] obtain t2 where t2: "map_of (tracked_objects st2) 1 = Some t2"
    by (elim exE)
  with B1 fl have "frames_lost t2 = 1" by simp
  with t2 have Q: "\<exists>t'. map_of (tracked_objects st2) 1 = Some t' \<and> frames_lost t' = 1"
    by (intro exI conjI)
  have E2: "\<exists>out st'. update one_car_state [] 2 = Inr (out, st')
         \<and> (\<exists>t'. map_of (tracked_objects st') 1 = Some t' \<and> frames_lost t' = 1)"
    by (rule exI, rule exI, rule conjI[OF u2 Q])
  show ?thesis
    by (rule conjI[OF w conjI[OF m conjI[OF mem conjI[OF E1 conjI[OF nmem conjI[OF act E2]]]]]])
qed

text \<open>
  The claim as stated speaks of every track present in the table. An inactive track
  that is still in the table is unmatched in every call and its counter stays: after
  three frames seen and ten frames lost the track is inactive with \<^verbatim>\<open>frames_lost = 10\<close>,
  and the call for the next frame leaves it in the table with \<^verbatim>\<open>frames_lost = 10\<close>.
\<close>

theorem inactive_track_not_incremented_counterexample:
  "\<exists>s out s'.
     run_updates (tracker_init default_config) (present3 (det_at 100 100) @ absent 4 10) = Inr s
     \<and> update s [] 14 = Inr (out, s')
     \<and> fst (associate_detections (s\<lparr>frame_count := 14\<rparr>) []) = []
     \<and> map (\<lambda>kt. (fst kt, is_active (snd kt), frames_lost (snd kt))) (tracked_objects s)
         = [(1, False, 10)]
     \<and> map (\<lambda>kt. (fst kt, is_active (snd kt), frames_lost (snd kt))) (tracked_objects s')
         = [(1, False, 10)]"
  by (rule scenario_inactive_unmatched)

subsection \<open>Claim C6\<close>

text \<open>
  Claim C6. The crossing check leaves a track whose \<^verbatim>\<open>has_crossed_line\<close> flag is set, and
  the counters, as they are, whatever lines its movement intersects. Over an \<^verbatim>\<open>update\<close>
  call on a well-formed tracker (which the call keeps well-formed): a track that is in
  the table before and after the call and had its flag set still has it set, so the
  flag is never reset while the track exists and goes from false to true at most once;
  a track created by the call has the flag unset; no counter decreases; and the sum of
  the four counters grows by exactly the number of tracks of the old table whose flag
  went from false to true in the call. A counter is therefore incremented only at the
  first crossing of a track, once.
\<close>

theorem crossing_flag_once:
  assumes wf: "wf_tracker st"
  shows "(has_crossed_line track \<longrightarrow>
            check_line_crossings st track old_center = (track, crossing_counts st))
     \<and> (\<exists>out st'. update st dets fn = Inr (out, st') \<and> wf_tracker st'
          \<and> (\<forall>k t t'. map_of (tracked_objects st) k = Some t
                 \<and> map_of (tracked_objects st') k = Some t' \<and> has_crossed_line t
                 \<longrightarrow> has_crossed_line t')
          \<and> (\<forall>k t'. map_of (tracked_objects st') k = Some t'
                 \<and> k \<notin> fst ` set (tracked_objects st) \<longrightarrow> \<not> has_crossed_line t')
          \<and> (\<forall>c. crossing_counts st c \<le> crossing_counts st' c)
          \<and> total_crossings st' =
               total_crossings st
                 + int (length (filter (\<lambda>k. crossed st' k \<and> \<not> crossed st k)
                                  (map fst (tracked_objects st)))))"
proof -
  let ?M = "fst ` set (fst (associate_detections (st\<lparr>frame_count := fn\<rparr>) dets))"
  have first: "has_crossed_line track \<longrightarrow>
            check_line_crossings st track old_center = (track, crossing_counts st)"
    using check_lines_props(1)[of "(track, crossing_counts st)" "counting_lines st" old_center
        "t_center track"]
    by (simp add: check_line_crossings_def)
  from update_structure[OF wf, of dets fn] obtain out st' st3
    and news :: "(int \<times> tracked_object) list" where
    upd: "update st dets fn = Inr (out, st')"
    and tb': "tracked_objects st' = filter (\<lambda>kt. \<not> purgeable fn kt) (tracked_objects st3)"
    and cc': "crossing_counts st' = crossing_counts st3"
    and w3: "wf_tracker st3" and nn': "next_track_id st' = next_track_id st3"
    and keys3: "map fst (tracked_objects st3) = map fst (tracked_objects st) @ map fst news"
    and news_ge: "list_all (\<lambda>kt. next_track_id st \<le> fst kt) news"
    and newflag: "\<forall>k t3. map_of (tracked_objects st3) k = Some t3 \<longrightarrow>
            k \<notin> fst ` set (tracked_objects st) \<longrightarrow> \<not> has_crossed_line t3"
    and pw: "\<forall>k t. map_of (tracked_objects st) k = Some t \<longrightarrow>
           (\<exists>t3. map_of (tracked_objects st3) k = Some t3
              \<and> (if k \<in> ?M then is_active t \<and> touched fn t t3
                  else if is_active t then t3 = lost_track st t
                  else t3 = t))"
    and J3: "total_crossings st3 - crossed_in (tracked_objects st3)
         = total_crossings st - crossed_in (tracked_objects st)"
    and le3: "\<forall>c. crossing_counts st c \<le> crossing_counts st3 c"
    by (elim exE conjE)
  from wf have dk: "distinct (map fst (tracked_objects st))"
    and lt: "list_all (\<lambda>kt. fst kt < next_track_id st) (tracked_objects st)"
    by (simp_all add: wf_tracker_def)
  from w3 have d3: "distinct (map fst (tracked_objects st3))" by (simp add: wf_tracker_def)
  have w': "wf_tracker st'" by (rule wf_tracker_filter[OF w3 tb' nn'])
  have old: "\<exists>t3. map_of (tracked_objects st3) k = Some t3
        \<and> (has_crossed_line t \<longrightarrow> has_crossed_line t3)
        \<and> (has_crossed_line t3 \<and> \<not> has_crossed_line t \<longrightarrow>
             map_of (tracked_objects st') k = Some t3)
        \<and> (\<forall>t'. map_of (tracked_objects st') k = Some t' \<longrightarrow> t' = t3)"
    if m: "map_of (tracked_objects st) k = Some t" for k t
  proof -
    from pw m obtain t3 where m3: "map_of (tracked_objects st3) k = Some t3"
      and r3: "if k \<in> ?M then is_active t \<and> touched fn t t3
                  else if is_active t then t3 = lost_track st t
                  else t3 = t" by blast
    have m': "map_of (tracked_objects st') k
       = (if \<not> is_active t3 \<and> fn - last_seen_frame t3 > 100 then None else Some t3)"
      unfolding tb' by (rule map_of_purged[OF d3 m3])
    have mono: "has_crossed_line t \<longrightarrow> has_crossed_line t3"
      using r3 by (cases "k \<in> ?M"; cases "is_active t") (auto simp: touched_def lost_track_fields)
    have flip: "has_crossed_line t3 \<and> \<not> has_crossed_line t \<longrightarrow>
             map_of (tracked_objects st') k = Some t3"
    proof
      assume f: "has_crossed_line t3 \<and> \<not> has_crossed_line t"
      have "k \<in> ?M"
      proof (rule ccontr)
        assume "k \<notin> ?M"
        with r3 have "has_crossed_line t3 = has_crossed_line t"
          by (cases "is_active t") (simp_all add: lost_track_fields)
        with f show False by simp
      qed
      with r3 have "is_active t" "touched fn t t3" by simp_all
      then have "is_active t3" by (simp add: touched_def)
      then show "map_of (tracked_objects st') k = Some t3" unfolding m' by simp
    qed
    have same: "\<forall>t'. map_of (tracked_objects st') k = Some t' \<longrightarrow> t' = t3"
      unfolding m' by simp
    from m3 mono flip same show ?thesis by blast
  qed
  have a: "\<forall>k t t'. map_of (tracked_objects st) k = Some t
                 \<and> map_of (tracked_objects st') k = Some t' \<and> has_crossed_line t
                 \<longrightarrow> has_crossed_line t'"
  proof (intro allI impI)
    fix k t t'
    assume h: "map_of (tracked_objects st) k = Some t
                 \<and> map_of (tracked_objects st') k = Some t' \<and> has_crossed_line t"
    from old[of k t] h obtain t3 where "has_crossed_line t \<longrightarrow> has_crossed_line t3"
      and "\<forall>t'. map_of (tracked_objects st') k = Some t' \<longrightarrow> t' = t3" by blast
    with h show "has_crossed_line t'" by blast
  qed
  have b: "\<forall>k t'. map_of (tracked_objects st') k = Some t'
                 \<and> k \<notin> fst ` set (tracked_objects st) \<longrightarrow> \<not> has_crossed_line t'"
  proof (intro allI impI)
    fix k t'
    assume h: "map_of (tracked_objects st') k = Some t' \<and> k \<notin> fst ` set (tracked_objects st)"
    then have "map_of (filter (\<lambda>kt. \<not> purgeable fn kt) (tracked_objects st3)) k = Some t'"
      using tb' by simp
    then have "map_of (tracked_objects st3) k = Some t'"
      by (simp add: map_of_filter_distinct[OF d3] split: option.splits if_splits)
    with newflag h show "\<not> has_crossed_line t'" by blast
  qed
  have c: "\<forall>c. crossing_counts st c \<le> crossing_counts st' c"
    using le3 cc' by simp
  let ?K = "map fst (tracked_objects st)"
  have newk: "\<forall>k \<in> set (map fst news). \<not> crossed st3 k"
  proof
    fix k assume "k \<in> set (map fst news)"
    then have ge: "next_track_id st \<le> k" using news_ge by (auto simp: list_all_iff)
    have "k \<notin> fst ` set (tracked_objects st)"
    proof
      assume "k \<in> fst ` set (tracked_objects st)"
      then have "k < next_track_id st" using lt by (auto simp: list_all_iff)
      with ge show False by simp
    qed
    with newflag show "\<not> crossed st3 k"
      by (auto simp: crossed_def split: option.splits)
  qed
  have c3: "crossed_in (tracked_objects st3) = int (length (filter (crossed st3) ?K))"
    unfolding crossed_in_keys[OF d3] keys3 using filter_none[OF newk] by simp
  have c0: "crossed_in (tracked_objects st) = int (length (filter (crossed st) ?K))"
    by (rule crossed_in_keys[OF dk])
  have mono3: "\<forall>k \<in> set ?K. crossed st k \<longrightarrow> crossed st3 k"
  proof (intro ballI impI)
    fix k assume "k \<in> set ?K" and cr: "crossed st k"
    then obtain t where m: "map_of (tracked_objects st) k = Some t" and f: "has_crossed_line t"
      by (auto simp: crossed_def split: option.splits)
    from old[OF m] f show "crossed st3 k" by (auto simp: crossed_def)
  qed
  have flips: "filter (\<lambda>k. crossed st3 k \<and> \<not> crossed st k) ?K
      = filter (\<lambda>k. crossed st' k \<and> \<not> crossed st k) ?K"
  proof (rule filter_cong[OF refl])
    fix k assume "k \<in> set ?K"
    then have "k \<in> fst ` set (tracked_objects st)" by simp
    then obtain t where m: "map_of (tracked_objects st) k = Some t"
      using map_of_present by fastforce
    from old[OF m] obtain t3 where m3: "map_of (tracked_objects st3) k = Some t3"
      and fl: "has_crossed_line t3 \<and> \<not> has_crossed_line t \<longrightarrow>
             map_of (tracked_objects st') k = Some t3"
      and sm: "\<forall>t'. map_of (tracked_objects st') k = Some t' \<longrightarrow> t' = t3" by blast
    show "(crossed st3 k \<and> \<not> crossed st k) = (crossed st' k \<and> \<not> crossed st k)"
      using m m3 fl sm by (auto simp: crossed_def split: option.splits)
  qed
  have "int (length (filter (crossed st3) ?K)) =
      int (length (filter (crossed st) ?K))
        + int (length (filter (\<lambda>k. crossed st3 k \<and> \<not> crossed st k) ?K))"
    using filter_split_mono[OF mono3] by simp
  then have "crossed_in (tracked_objects st3) - crossed_in (tracked_objects st)
      = int (length (filter (\<lambda>k. crossed st' k \<and> \<not> crossed st k) ?K))"
    unfolding c3 c0 flips by simp
  moreover have "total_crossings st' = total_crossings st3"
    using cc' by (simp add: total_crossings_def)
  ultimately have d: "total_crossings st' =
               total_crossings st
                 + int (length (filter (\<lambda>k. crossed st' k \<and> \<not> crossed st k) ?K))"
    using J3 by simp
  note all = conjI[OF upd conjI[OF w' conjI[OF a conjI[OF b conjI[OF c d]]]]]
  have "\<exists>out st'. update st dets fn = Inr (out, st') \<and> wf_tracker st'
          \<and> (\<forall>k t t'. map_of (tracked_objects st) k = Some t
                 \<and> map_of (tracked_objects st') k = Some t' \<and> has_crossed_line t
                 \<longrightarrow> has_crossed_line t')
          \<and> (\<forall>k t'. map_of (tracked_objects st') k = Some t'
                 \<and> k \<notin> fst ` set (tracked_objects st) \<longrightarrow> \<not> has_crossed_line t')
          \<and> (\<forall>c. crossing_counts st c \<le> crossing_counts st' c)
          \<and> total_crossings st' =
               total_crossings st
                 + int (length (filter (\<lambda>k. crossed st' k \<and> \<not> crossed st k)
                                  (map fst (tracked_objects st))))"
    by (intro exI) (rule all)
  with first show ?thesis by (rule conjI)
qed

theorem crossing_flag_once_witness:
  "wf_tracker west_car_state
   \<and> has_crossed_line (west_car_track\<lparr>has_crossed_line := True\<rparr>)
   \<and> check_line_crossings west_car_state (west_car_track\<lparr>has_crossed_line := True\<rparr>) (110, 50)
       = (west_car_track\<lparr>has_crossed_line := True\<rparr>, crossing_counts west_car_state)
   \<and> (\<exists>out st'. update west_car_state [det_at 110 50] 2 = Inr (out, st')
         \<and> crossing_counts st' East = 1
         \<and> map (\<lambda>kt. has_crossed_line (snd kt)) (tracked_objects st') = [True]
         \<and> total_crossings west_car_state = 0
         \<and> total_crossings st' = 1
         \<and> total_crossings st' =
               total_crossings west_car_state
                 + int (length (filter (\<lambda>k. crossed st' k \<and> \<not> crossed west_car_state k)
                                  (map fst (tracked_objects west_car_state))))
         \<and> (\<exists>out2 st2. update st' [det_at 90 50] 3 = Inr (out2, st2)
               \<and> map (\<lambda>kt. t_center (snd kt)) (tracked_objects st2) = [(90, 50)]
               \<and> total_crossings st2 = 1))"
proof -
  have w: "wf_tracker west_car_state"
    by (simp add: wf_tracker_def west_car_state_def)
  have f: "has_crossed_line (west_car_track\<lparr>has_crossed_line := True\<rparr>)" by simp
  note T = crossing_flag_once[OF w, of "west_car_track\<lparr>has_crossed_line := True\<rparr>" "(110, 50)"
      "[det_at 110 50]" 2]
  from mp[OF T[THEN conjunct1] f]
  have first: "check_line_crossings west_car_state (west_car_track\<lparr>has_crossed_line := True\<rparr>)
        (110, 50)
       = (west_car_track\<lparr>has_crossed_line := True\<rparr>, crossing_counts west_car_state)" .
  from T[THEN conjunct2] obtain out st' where
    u: "update west_car_state [det_at 110 50] 2 = Inr (out, st')"
    and tot: "total_crossings st' =
               total_crossings west_car_state
                 + int (length (filter (\<lambda>k. crossed st' k \<and> \<not> crossed west_car_state k)
                                  (map fst (tracked_objects west_car_state))))"
    by (elim exE conjE)
  from west_car_crosses obtain o1 s1 o2 s2 where
    e: "update west_car_state [det_at 110 50] 2 = Inr (o1, s1)"
    and e1: "crossing_counts s1 East = 1" "total_crossings s1 = 1"
      "total_crossings west_car_state = 0"
      "map (\<lambda>kt. has_crossed_line (snd kt)) (tracked_objects s1) = [True]"
    and e2: "update s1 [det_at 90 50] 3 = Inr (o2, s2)"
      "map (\<lambda>kt. t_center (snd kt)) (tracked_objects s2) = [(90, 50)]"
      "total_crossings s2 = 1"
    by (elim exE conjE)
  from u e have eq: "s1 = st'" by simp
  have again: "\<exists>out2 st2. update st' [det_at 90 50] 3 = Inr (out2, st2)
               \<and> map (\<lambda>kt. t_center (snd kt)) (tracked_objects st2) = [(90, 50)]
               \<and> total_crossings st2 = 1"
    by (rule exI, rule exI, rule conjI[OF e2(1)[unfolded eq] conjI[OF e2(2) e2(3)]])
  note inner = conjI[OF u conjI[OF e1(1)[unfolded eq] conjI[OF e1(4)[unfolded eq]
        conjI[OF e1(3) conjI[OF e1(2)[unfolded eq] conjI[OF tot again]]]]]]
  have "\<exists>out st'. update west_car_state [det_at 110 50] 2 = Inr (out, st')
         \<and> crossing_counts st' East = 1
         \<and> map (\<lambda>kt. has_crossed_line (snd kt)) (tracked_objects st') = [True]
         \<and> total_crossings west_car_state = 0
         \<and> total_crossings st' = 1
         \<and> total_crossings st' =
               total_crossings west_car_state
                 + int (length (filter (\<lambda>k. crossed st' k \<and> \<not> crossed west_car_state k)
                                  (map fst (tracked_objects west_car_state))))
         \<and> (\<exists>out2 st2. update st' [det_at 90 50] 3 = Inr (out2, st2)
               \<and> map (\<lambda>kt. t_center (snd kt)) (tracked_objects st2) = [(90, 50)]
               \<and> total_crossings st2 = 1)"
    by (rule exI, rule exI, rule inner)
  then show ?thesis by (rule conjI[OF w conjI[OF f conjI[OF first]]])
qed

end
